theory Spec2Isabelle
  imports Main "HOL-Library.Sublist"
begin

section \<open>Strings and characters\<close>

text \<open>
  Source text, names and paths are lists of 8-bit characters: the code units
  below 256 of the JavaScript strings of the program. The character classes
  \<^verbatim>\<open>\w\<close>, \<^verbatim>\<open>\s\<close>, \<^verbatim>\<open>[a-z]\<close> and \<^verbatim>\<open>[A-Z]\<close> of the regular expressions in
  \<^verbatim>\<open>factory-helpers.ts\<close> are predicates on these code units.
\<close>

definition code :: "char \<Rightarrow> nat" where
  "code c = of_char c"

definition is_lower :: "char \<Rightarrow> bool" where
  "is_lower c = (97 \<le> code c \<and> code c \<le> 122)"

definition is_upper :: "char \<Rightarrow> bool" where
  "is_upper c = (65 \<le> code c \<and> code c \<le> 90)"

definition is_digit :: "char \<Rightarrow> bool" where
  "is_digit c = (48 \<le> code c \<and> code c \<le> 57)"

definition is_word :: "char \<Rightarrow> bool" where
  "is_word c = (is_lower c \<or> is_upper c \<or> is_digit c \<or> c = CHR ''_'')"

definition is_space :: "char \<Rightarrow> bool" where
  "is_space c = ((9 \<le> code c \<and> code c \<le> 13) \<or> code c = 32 \<or> code c = 160)"

text \<open>\<^verbatim>\<open>String.prototype.toLowerCase\<close> on one code unit below 256.\<close>

definition to_lower :: "char \<Rightarrow> char" where
  "to_lower c =
     (if is_upper c \<or> (192 \<le> code c \<and> code c \<le> 222 \<and> code c \<noteq> 215)
      then char_of (code c + 32) else c)"

text \<open>\<^verbatim>\<open>toUpperCase\<close>, which the program applies to \<^verbatim>\<open>\w\<close> characters only.\<close>

definition to_upper :: "char \<Rightarrow> char" where
  "to_upper c = (if is_lower c then char_of (code c - 32) else c)"

definition toLowerCase :: "string \<Rightarrow> string" where
  "toLowerCase s = map to_lower s"

fun str_includes :: "string \<Rightarrow> string \<Rightarrow> bool" where
  "str_includes [] sub = (sub = [])"
| "str_includes (c # cs) sub = (prefix sub (c # cs) \<or> str_includes cs sub)"

text \<open>\<^verbatim>\<open>str.replace(pat, by)\<close> with a string pattern: the first occurrence only.\<close>

fun replace_first :: "string \<Rightarrow> string \<Rightarrow> string \<Rightarrow> string" where
  "replace_first pat by [] = (if pat = [] then by else [])"
| "replace_first pat by (c # cs) =
     (if prefix pat (c # cs) then by @ drop (length pat) (c # cs)
      else c # replace_first pat by cs)"

definition dq :: char where
  "dq = CHR 0x22"

definition backslash :: char where
  "backslash = CHR 0x5C"

section \<open>The helpers of factory-helpers.ts\<close>

subsection \<open>Case conversions\<close>

text \<open>\<^verbatim>\<open>str.replace(/([a-z])([A-Z])/g, "$1-$2").toLowerCase()\<close>\<close>

fun kebab_replace :: "string \<Rightarrow> string" where
  "kebab_replace (a # b # cs) =
     (if is_lower a \<and> is_upper b then a # CHR ''-'' # b # kebab_replace cs
      else a # kebab_replace (b # cs))"
| "kebab_replace cs = cs"

definition toKebabCase :: "string \<Rightarrow> string" where
  "toKebabCase str = toLowerCase (kebab_replace str)"

text \<open>
  \<^verbatim>\<open>str.replace(/(^\w|-\w)/g, (m) => m.replace("-", "").toUpperCase())\<close>:
  the first alternative can only match at position 0, the second anywhere.
\<close>

fun pascal_replace :: "string \<Rightarrow> string" where
  "pascal_replace (a # b # cs) =
     (if a = CHR ''-'' \<and> is_word b then to_upper b # pascal_replace cs
      else a # pascal_replace (b # cs))"
| "pascal_replace cs = cs"

definition toPascalCase :: "string \<Rightarrow> string" where
  "toPascalCase str =
     (case str of
        [] \<Rightarrow> []
      | c # cs \<Rightarrow> if is_word c then to_upper c # pascal_replace cs else pascal_replace str)"

text \<open>\<^verbatim>\<open>str.charAt(0).toLowerCase() + str.slice(1)\<close>\<close>

definition toCamelCase :: "string \<Rightarrow> string" where
  "toCamelCase str = (case str of [] \<Rightarrow> [] | c # cs \<Rightarrow> to_lower c # cs)"

subsection \<open>Schema types\<close>

datatype type_kind =
  ScalarType | ObjectType | InterfaceType | UnionType | EnumType | InputObjectType

text \<open>
  A \<^verbatim>\<open>GraphQLType\<close>: a named type (its class and its name) under any number of
  non-null and list wrappers.
\<close>

datatype gql_type =
  Named type_kind string
| NonNull gql_type
| ListOf gql_type

fun unwrapType :: "gql_type \<Rightarrow> type_kind \<times> string" where
  "unwrapType (Named k n) = (k, n)"
| "unwrapType (NonNull t) = unwrapType t"
| "unwrapType (ListOf t) = unwrapType t"

definition isScalar :: "type_kind \<times> string \<Rightarrow> bool" where
  "isScalar t =
     (fst t = ScalarType \<or>
      snd t \<in> set [''String'', ''Int'', ''Float'', ''Boolean'', ''ID''])"

definition isEnum :: "type_kind \<times> string \<Rightarrow> bool" where
  "isEnum t = (fst t = EnumType)"

fun isListType :: "gql_type \<Rightarrow> bool" where
  "isListType (ListOf t) = True"
| "isListType t = False"

fun isListTypeDeep :: "gql_type \<Rightarrow> bool" where
  "isListTypeDeep (NonNull t) = isListType t"
| "isListTypeDeep t = isListType t"

subsection \<open>Text scans of a fragment document\<close>

text \<open>
  One attempt of \<^verbatim>\<open>/(\w+)\s*\{\s*\.\.\.(\w+)/\<close> at the start of a text: the two
  captures and the text after the match. Every quantifier is followed by a
  character outside its class, so the greedy choice is the only one that can
  succeed.
\<close>

definition match_field_spread :: "string \<Rightarrow> (string \<times> string \<times> string) option" where
  "match_field_spread s =
     (let field = takeWhile is_word s;
          r1 = dropWhile is_space (dropWhile is_word s)
      in if field = [] then None
         else (case r1 of
                 [] \<Rightarrow> None
               | c # r2 \<Rightarrow>
                   if c = CHR ''{'' then
                     (let r3 = dropWhile is_space r2 in
                      if prefix ''...'' r3 then
                        (let frag = takeWhile is_word (drop 3 r3) in
                         if frag = [] then None
                         else Some (field, frag, dropWhile is_word (drop 3 r3)))
                      else None)
                   else None))"

text \<open>
  \<^verbatim>\<open>content.matchAll(...)\<close>: the matches from left to right, each search starting
  where the previous match ended.
\<close>

function matchAll_field_spread :: "string \<Rightarrow> (string \<times> string) list" where
  "matchAll_field_spread [] = []"
| "matchAll_field_spread (c # cs) =
     (case match_field_spread (c # cs) of
        Some (f, g, rest) \<Rightarrow> (f, g) # matchAll_field_spread rest
      | None \<Rightarrow> matchAll_field_spread cs)"
  by pat_completeness auto
termination
proof (relation "measure length")
  fix c cs m f p g rest
  assume found: "match_field_spread (c # cs) = Some m" and m: "(f, p) = m" "(g, rest) = p"
  let ?s = "c # cs"
  have shorter: "length (dropWhile P xs) \<le> length xs" for P and xs :: string
    by (rule length_dropWhile_le)
  from found m obtain b r2 where
    r1: "dropWhile is_space (dropWhile is_word ?s) = b # r2" and
    rest: "rest = dropWhile is_word (drop 3 (dropWhile is_space r2))"
    by (auto simp: match_field_spread_def Let_def split: list.splits if_splits)
  have "length rest \<le> length r2"
    unfolding rest
    using shorter [of is_word "drop 3 (dropWhile is_space r2)"] shorter [of is_space r2]
    by simp
  moreover have "length (b # r2) \<le> length ?s"
    using shorter [of is_space "dropWhile is_word ?s"] shorter [of is_word ?s]
    unfolding r1 by simp
  ultimately show "(rest, c # cs) \<in> measure length"
    by simp
qed simp_all

definition getFieldFragmentMap :: "string \<Rightarrow> (string \<times> string) list" where
  "getFieldFragmentMap content = matchAll_field_spread content"

text \<open>
  Reading a property of the object built by \<^verbatim>\<open>Object.fromEntries\<close>: the last entry
  of a key wins, and a key the object does not own is looked up in
  \<^verbatim>\<open>Object.prototype\<close>, whose members are functions and objects, not strings.
\<close>

datatype js_property = Undefined | OwnString string | Inherited

definition object_prototype_keys :: "string list" where
  "object_prototype_keys =
     [''constructor'', ''hasOwnProperty'', ''isPrototypeOf'', ''propertyIsEnumerable'',
      ''toLocaleString'', ''toString'', ''valueOf'', ''__proto__'',
      ''__defineGetter__'', ''__defineSetter__'', ''__lookupGetter__'', ''__lookupSetter__'']"

definition get_property :: "(string \<times> string) list \<Rightarrow> string \<Rightarrow> js_property" where
  "get_property entries k =
     (case map_of (rev entries) k of
        Some v \<Rightarrow> OwnString v
      | None \<Rightarrow> if k \<in> set object_prototype_keys then Inherited else Undefined)"

text \<open>The first match of \<^verbatim>\<open>/fragment (\w+) on/\<close> in a text: its capture.\<close>

fun match_fragment_name :: "string \<Rightarrow> string option" where
  "match_fragment_name [] = None"
| "match_fragment_name (c # cs) =
     (if prefix ''fragment '' (c # cs) \<and>
         takeWhile is_word (drop 9 (c # cs)) \<noteq> [] \<and>
         prefix '' on'' (dropWhile is_word (drop 9 (c # cs)))
      then Some (takeWhile is_word (drop 9 (c # cs)))
      else match_fragment_name cs)"

section \<open>Fragment documents, schema and environment\<close>

text \<open>
  What \<^verbatim>\<open>parse\<close> of the graphql library returns, as far as the program reads it:
  the definitions of a document, and for a fragment definition its name, its type
  condition and its selections.
\<close>

datatype selection =
  FieldNode string "selection list"
| FragmentSpreadNode string
| InlineFragmentNode "selection list"

record fragment_def =
  frag_name :: string
  typeCondition :: string
  selections :: "selection list"

datatype definition_node =
  FragmentDefinitionNode fragment_def
| OtherDefinition

type_synonym document = "definition_node list"

text \<open>
  A named type of the schema as \<^verbatim>\<open>schema.getType\<close> returns it: its class and, for
  the classes that have a \<^verbatim>\<open>getFields\<close> method, its fields.
\<close>

record type_def =
  td_kind :: type_kind
  td_fields :: "(string \<times> gql_type) list"

type_synonym schema = "(string \<times> type_def) list"

text \<open>
  The registry store \<^verbatim>\<open>src/gql/ids.ts\<close> as the ts-morph object literal shows it:
  the property assignments of \<^verbatim>\<open>ids\<close> in source order, each a name and the
  source text of its initializer.
\<close>

type_synonym registry = "(string \<times> string) list"

datatype error =
  ENOENT string
| GraphQLSyntaxError
| SchemaLoadError
| RegistryStoreError
| TypeError
| FragmentNameNotFound string

text \<open>
  The effects of a run in the order they happen: console output (one
  constructor per \<^verbatim>\<open>console.log\<close> or \<^verbatim>\<open>console.warn\<close> statement of the
  program), artifact writes and saves of the registry store.
\<close>

datatype event =
  LogNestedFactory string
| LogGenerated string string
| LogIdsUpdated
| LogGenerating string
| WarnNoFragments
| FileWritten string
| RegistrySaved

text \<open>
  The world a run reads and changes: the text files (fragment documents and
  generated artifacts), the schema file and the registry store (each \<open>None\<close>
  when it is missing or cannot be read as what it should hold), the state of
  faker's random generator, and the trace of effects.
\<close>

record world =
  files :: "(string \<times> string) list"
  schema_store :: "schema option"
  ids_store :: "registry option"
  rng :: nat
  trace :: "event list"

fun writeFileSync :: "string \<Rightarrow> string \<Rightarrow> (string \<times> string) list \<Rightarrow> (string \<times> string) list" where
  "writeFileSync p c [] = [(p, c)]"
| "writeFileSync p c ((q, d) # fs) =
     (if q = p then (p, c) # fs else (q, d) # writeFileSync p c fs)"

definition existsSync :: "(string \<times> string) list \<Rightarrow> string \<Rightarrow> bool" where
  "existsSync fs p = (map_of fs p \<noteq> None)"

text \<open>
  The libraries the program calls are parameters of the model: the graphql
  parser (\<open>None\<close> when it throws), fast-glob (the paths a pattern matches in
  a file system), Node's \<^verbatim>\<open>path\<close> functions, the resolved path of the registry
  store, and faker. A faker call takes the generator's state and returns the
  value drawn with the next state; for the numeric and date calls the value is
  the text that \<^verbatim>\<open>toString\<close> or \<^verbatim>\<open>toISOString\<close> gives of it. The scan of the source
  tree for an enum declaration (\<^verbatim>\<open>resolveEnumAccess\<close>) reads files only and is
  taken as a function of the file system, the enum's name and the directory:
  the value to emit and the import line, if any.
\<close>

datatype faker_call =
  InternetEmail | PersonFullName | PersonFirstName | PersonLastName
| InternetUsername | InternetUrl | PhoneNumber | LocationCity | LocationCountry
| LocationStreetAddress | LoremWords | NumberInt | NumberFloat | DateRecent

record env =
  gql_parse :: "string \<Rightarrow> document option"
  glob_sync :: "(string \<times> string) list \<Rightarrow> string \<Rightarrow> string list"
  path_dirname :: "string \<Rightarrow> string"
  path_join :: "string \<Rightarrow> string \<Rightarrow> string"
  path_relative :: "string \<Rightarrow> string \<Rightarrow> string"
  IDS_PATH :: string
  faker :: "faker_call \<Rightarrow> nat \<Rightarrow> string \<times> nat"
  faker_boolean :: "nat \<Rightarrow> bool \<times> nat"
  resolveEnumAccess :: "(string \<times> string) list \<Rightarrow> string \<Rightarrow> string \<Rightarrow> string \<times> string option"

text \<open>
  A computation either runs out of fuel (\<open>None\<close>: the recursion is deeper
  than the fuel given), throws (\<open>Inl\<close>) or returns (\<open>Inr\<close>).
\<close>

type_synonym 'a result = "(error + 'a) option"

text \<open>A \<^verbatim>\<open>for ... of\<close> loop whose body may throw, over a state.\<close>

fun forEach :: "('a \<Rightarrow> 's \<Rightarrow> 's result) \<Rightarrow> 'a list \<Rightarrow> 's \<Rightarrow> 's result" where
  "forEach body [] s = Some (Inr s)"
| "forEach body (x # xs) s =
     (case body x s of
        None \<Rightarrow> None
      | Some (Inl err) \<Rightarrow> Some (Inl err)
      | Some (Inr s') \<Rightarrow> forEach body xs s')"

subsection \<open>The remaining helpers\<close>

definition strip_ts :: "string \<Rightarrow> string" where
  "strip_ts s = (if suffix ''.ts'' s then take (length s - 3) s else s)"

definition toRelativeImport :: "env \<Rightarrow> string \<Rightarrow> string \<Rightarrow> string" where
  "toRelativeImport e src dst =
     (let rel = strip_ts (map (\<lambda>c. if c = backslash then CHR ''/'' else c)
                            (path_relative e src dst))
      in if prefix ''.'' rel then rel else ''./'' @ rel)"

fun spreads_of :: "selection list \<Rightarrow> string list" where
  "spreads_of [] = []"
| "spreads_of (FragmentSpreadNode n # ss) = n # spreads_of ss"
| "spreads_of (s # ss) = spreads_of ss"

fun topLevelSpreads :: "document \<Rightarrow> string list" where
  "topLevelSpreads [] = []"
| "topLevelSpreads (FragmentDefinitionNode f # ds) = spreads_of (selections f) @ topLevelSpreads ds"
| "topLevelSpreads (OtherDefinition # ds) = topLevelSpreads ds"

definition getTopLevelFragmentSpreads :: "env \<Rightarrow> string \<Rightarrow> error + string list" where
  "getTopLevelFragmentSpreads e content =
     (case gql_parse e content of
        None \<Rightarrow> Inl GraphQLSyntaxError
      | Some ast \<Rightarrow> Inr (topLevelSpreads ast))"

definition extractFragmentName :: "(string \<times> string) list \<Rightarrow> string \<Rightarrow> error + string" where
  "extractFragmentName fs filePath =
     (case map_of fs filePath of
        None \<Rightarrow> Inl (ENOENT filePath)
      | Some content \<Rightarrow>
          (case match_fragment_name content of
             None \<Rightarrow> Inl (FragmentNameNotFound filePath)
           | Some n \<Rightarrow> Inr n))"

text \<open>
  The local state of one pass of \<^verbatim>\<open>generateFactory\<close>: the in-memory object
  literal of the registry and the three line buffers of the document in work.
\<close>

record gen =
  g_ids :: registry
  g_imports :: "string list"
  g_nestedImports :: "string list"
  g_fields :: "string list"

definition getProperty :: "registry \<Rightarrow> string \<Rightarrow> string option" where
  "getProperty reg k = map_of reg k"

definition addPropertyAssignment :: "registry \<Rightarrow> string \<Rightarrow> string \<Rightarrow> registry" where
  "addPropertyAssignment reg k init = reg @ [(k, init)]"

definition handleIdField :: "string \<Rightarrow> type_kind \<times> string \<Rightarrow> string \<Rightarrow> gen \<Rightarrow> gen" where
  \<open>handleIdField typeName baseType idsImportPath g =
     (let idsKey = toCamelCase typeName;
          isStringId = (snd baseType = ''String'' \<or> snd baseType = ''ID'');
          ids' = (if getProperty (g_ids g) idsKey = None
                  then addPropertyAssignment (g_ids g) idsKey
                         (if isStringId then ''["1", "2", "3"]'' else ''[1, 2, 3]'')
                  else g_ids g)
      in g\<lparr>g_ids := ids',
           g_imports := g_imports g @ [''import { ids } from "'' @ idsImportPath @ ''";''],
           g_fields := g_fields g @ [''  id: ids.'' @ idsKey @ ''[0],'']\<rparr>)\<close>

text \<open>\<^verbatim>\<open>JSON.stringify\<close> of a string of code units below 256.\<close>

definition hex_digit :: "nat \<Rightarrow> char" where
  "hex_digit n = (if n < 10 then char_of (48 + n) else char_of (87 + n))"

definition json_escape :: "char \<Rightarrow> string" where
  "json_escape c =
     (if c = dq then [backslash, dq]
      else if c = backslash then [backslash, backslash]
      else if code c = 8 then [backslash, CHR ''b'']
      else if code c = 12 then [backslash, CHR ''f'']
      else if code c = 10 then [backslash, CHR ''n'']
      else if code c = 13 then [backslash, CHR ''r'']
      else if code c = 9 then [backslash, CHR ''t'']
      else if code c < 32 then
        [backslash, CHR ''u'', CHR ''0'', CHR ''0'',
         hex_digit (code c div 16), hex_digit (code c mod 16)]
      else [c])"

definition JSON_stringify :: "string \<Rightarrow> string" where
  "JSON_stringify s = dq # concat (map json_escape s) @ [dq]"

definition faker_json :: "env \<Rightarrow> faker_call \<Rightarrow> nat \<Rightarrow> string \<times> nat" where
  "faker_json e call r = (case faker e call r of (v, r') \<Rightarrow> (JSON_stringify v, r'))"

definition getFakerMockForScalar :: "env \<Rightarrow> string \<Rightarrow> string \<Rightarrow> nat \<Rightarrow> string \<times> nat" where
  "getFakerMockForScalar e scalar name0 r =
     (let name = toLowerCase name0 in
      if scalar = ''String'' then
        (if str_includes name ''email'' then faker_json e InternetEmail r
         else if str_includes name ''fullname'' then faker_json e PersonFullName r
         else if str_includes name ''first'' then faker_json e PersonFirstName r
         else if str_includes name ''last'' then faker_json e PersonLastName r
         else if str_includes name ''username'' then faker_json e InternetUsername r
         else if str_includes name ''url'' \<or> str_includes name ''uri''
           then faker_json e InternetUrl r
         else if str_includes name ''phone'' then faker_json e PhoneNumber r
         else if str_includes name ''city'' then faker_json e LocationCity r
         else if str_includes name ''country'' then faker_json e LocationCountry r
         else if str_includes name ''address'' then faker_json e LocationStreetAddress r
         else faker_json e LoremWords r)
      else if scalar = ''Int'' then faker e NumberInt r
      else if scalar = ''Float'' then faker e NumberFloat r
      else if scalar = ''Boolean'' then
        (case faker_boolean e r of (b, r') \<Rightarrow> (if b then ''true'' else ''false'', r'))
      else if scalar = ''Date'' \<or> scalar = ''DateTime'' then faker_json e DateRecent r
      else (JSON_stringify (''mock-'' @ name), r))"

section \<open>generateFactories.ts\<close>

subsection \<open>One selected field\<close>

definition getFields :: "type_def \<Rightarrow> error + (string \<times> gql_type) list" where
  "getFields ty =
     (if td_kind ty = ObjectType \<or> td_kind ty = InterfaceType \<or> td_kind ty = InputObjectType
      then Inr (td_fields ty) else Inl TypeError)"

definition scalarField :: "env \<Rightarrow> string \<Rightarrow> gql_type \<Rightarrow> gen \<times> world \<Rightarrow> gen \<times> world" where
  "scalarField e fieldName ftype gw =
     (case gw of (g, w) \<Rightarrow>
      case getFakerMockForScalar e (snd (unwrapType ftype)) fieldName (rng w) of
        (mockValue, r') \<Rightarrow>
          (g\<lparr>g_fields := g_fields g @
               [if isListTypeDeep ftype
                then ''  '' @ fieldName @ '': ['' @ mockValue @ ''],''
                else ''  '' @ fieldName @ '': '' @ mockValue @ '','']\<rparr>,
           w\<lparr>rng := r'\<rparr>))"

definition enumField :: "env \<Rightarrow> string \<Rightarrow> string \<Rightarrow> gql_type \<Rightarrow> gen \<times> world \<Rightarrow> gen \<times> world" where
  "enumField e fragmentDir fieldName ftype gw =
     (case gw of (g, w) \<Rightarrow>
      case resolveEnumAccess e (files w) (snd (unwrapType ftype)) fragmentDir of
        (enumValue, enumImport) \<Rightarrow>
          (g\<lparr>g_nestedImports :=
               (case enumImport of
                  None \<Rightarrow> g_nestedImports g
                | Some i \<Rightarrow> if i = [] then g_nestedImports g else g_nestedImports g @ [i]),
             g_fields := g_fields g @ [''  '' @ fieldName @ '': '' @ enumValue @ '','']\<rparr>,
           w))"

text \<open>
  \<^verbatim>\<open>toPascalCase(fieldToFragmentMap[fieldName] || baseType.name)\<close>: an inherited
  member is truthy and has no \<^verbatim>\<open>replace\<close> method.
\<close>

definition fragmentToSearch :: "(string \<times> string) list \<Rightarrow> string \<Rightarrow> string \<Rightarrow> error + string" where
  "fragmentToSearch fieldToFragmentMap fieldName baseName =
     (case get_property fieldToFragmentMap fieldName of
        Undefined \<Rightarrow> Inr (toPascalCase baseName)
      | OwnString v \<Rightarrow> Inr (toPascalCase (if v = [] then baseName else v))
      | Inherited \<Rightarrow> Inl TypeError)"

definition nestedField ::
  "env \<Rightarrow> (string \<Rightarrow> world \<Rightarrow> world result) \<Rightarrow> string \<Rightarrow> (string \<times> string) list \<Rightarrow>
   string \<Rightarrow> gql_type \<Rightarrow> gen \<times> world \<Rightarrow> (gen \<times> world) result" where
  \<open>nestedField e rec fragmentDir fieldToFragmentMap fieldName ftype gw =
     (case gw of (g, w) \<Rightarrow>
      (case fragmentToSearch fieldToFragmentMap fieldName (snd (unwrapType ftype)) of
        Inl err \<Rightarrow> Some (Inl err)
      | Inr toSearch \<Rightarrow>
          (case glob_sync e (files w) (''src/**/*/'' @ toKebabCase toSearch @ ''.fragment.gql'') of
             [] \<Rightarrow> Some (Inr (g, w))
           | nestedFragmentPath # others \<Rightarrow>
               if nestedFragmentPath = [] then Some (Inr (g, w))
               else
                 (case extractFragmentName (files w) nestedFragmentPath of
                    Inl err \<Rightarrow> Some (Inl err)
                  | Inr nestedFragmentName \<Rightarrow>
                      (let nestedFactoryName = ''createMock'' @ toPascalCase nestedFragmentName;
                           nestedFactoryPath =
                             replace_first ''.fragment.gql'' ''.factory.ts'' nestedFragmentPath
                       in case (if existsSync (files w) nestedFactoryPath then Some (Inr w)
                                else rec nestedFragmentPath
                                       (w\<lparr>trace := trace w @ [LogNestedFactory toSearch]\<rparr>)) of
                            None \<Rightarrow> None
                          | Some (Inl err) \<Rightarrow> Some (Inl err)
                          | Some (Inr w') \<Rightarrow>
                              Some (Inr
                                (g\<lparr>g_nestedImports := g_nestedImports g @
                                     [''import { '' @ nestedFactoryName @ '' } from "'' @
                                      toRelativeImport e fragmentDir nestedFactoryPath @ ''";''],
                                   g_fields := g_fields g @
                                     [if isListTypeDeep ftype
                                      then ''  '' @ fieldName @ '': ['' @ nestedFactoryName @ ''()],''
                                      else ''  '' @ fieldName @ '': '' @ nestedFactoryName @ ''(),'']\<rparr>,
                                 w')))))))\<close>

definition processSelection ::
  "env \<Rightarrow> (string \<Rightarrow> world \<Rightarrow> world result) \<Rightarrow> type_def \<Rightarrow> string \<Rightarrow> string \<Rightarrow> string \<Rightarrow>
   (string \<times> string) list \<Rightarrow> selection \<Rightarrow> gen \<times> world \<Rightarrow> (gen \<times> world) result" where
  "processSelection e rec ty tyName fragmentDir idsRelativePath fieldToFragmentMap selection gw =
     (case selection of
        FieldNode fieldName sub \<Rightarrow>
          (case getFields ty of
             Inl err \<Rightarrow> Some (Inl err)
           | Inr fs \<Rightarrow>
               (case map_of fs fieldName of
                  None \<Rightarrow> Some (Inl TypeError)
                | Some ftype \<Rightarrow>
                    if fieldName = ''id'' then
                      Some (Inr (handleIdField tyName (unwrapType ftype) idsRelativePath (fst gw),
                                 snd gw))
                    else if isScalar (unwrapType ftype) then
                      Some (Inr (scalarField e fieldName ftype gw))
                    else if isEnum (unwrapType ftype) then
                      Some (Inr (enumField e fragmentDir fieldName ftype gw))
                    else nestedField e rec fragmentDir fieldToFragmentMap fieldName ftype gw))
      | FragmentSpreadNode n \<Rightarrow> Some (Inr gw)
      | InlineFragmentNode sub \<Rightarrow> Some (Inr gw))"

subsection \<open>One fragment document\<close>

fun spreadLoop :: "env \<Rightarrow> string \<Rightarrow> (string \<times> string) list \<Rightarrow> string list \<Rightarrow> gen \<Rightarrow> gen" where
  \<open>spreadLoop e fragmentDir fs [] g = g\<close>
| \<open>spreadLoop e fragmentDir fs (spread # rest) g =
     (case glob_sync e fs (''src/gql/**/'' @ toKebabCase spread @ ''.factory.ts'') of
        [] \<Rightarrow> spreadLoop e fragmentDir fs rest g
      | m # others \<Rightarrow>
          if m = [] then spreadLoop e fragmentDir fs rest g
          else spreadLoop e fragmentDir fs rest
                 (g\<lparr>g_nestedImports := g_nestedImports g @
                      [''import { createMock'' @ spread @ '' } from "'' @
                       toRelativeImport e fragmentDir m @ ''";''],
                    g_fields := (''  ...createMock'' @ spread @ ''(),'') # g_fields g\<rparr>))\<close>

text \<open>
  The two loops over a fragment and the push of the discriminator field: the
  buffers when the artifact is put together.
\<close>

definition documentFields ::
  "env \<Rightarrow> (string \<Rightarrow> world \<Rightarrow> world result) \<Rightarrow> type_def \<Rightarrow> string \<Rightarrow> string \<Rightarrow> string \<Rightarrow>
   (string \<times> string) list \<Rightarrow> string list \<Rightarrow> selection list \<Rightarrow> gen \<times> world \<Rightarrow>
   (gen \<times> world) result" where
  \<open>documentFields e rec ty tyName fragmentDir idsRelativePath fieldToFragmentMap spreads sels gw =
     (case forEach (processSelection e rec ty tyName fragmentDir idsRelativePath
                      fieldToFragmentMap) sels gw of
        None \<Rightarrow> None
      | Some (Inl err) \<Rightarrow> Some (Inl err)
      | Some (Inr (g, w)) \<Rightarrow>
          (let g' = spreadLoop e fragmentDir (files w) spreads g
           in Some (Inr (g'\<lparr>g_fields := g_fields g' @ [''  __typename: "'' @ tyName @ ''",'']\<rparr>,
                         w))))\<close>

fun join :: "string \<Rightarrow> string list \<Rightarrow> string" where
  "join sep [] = []"
| "join sep [x] = x"
| "join sep (x # y # ys) = x @ sep @ join sep (y # ys)"

definition fileContent :: "string \<Rightarrow> gen \<Rightarrow> string" where
  \<open>fileContent fragmentName g =
     join [CHR 0x0A]
       (g_imports g @ g_nestedImports g @
        [[], ''const default'' @ fragmentName @ '': '' @ fragmentName @ ''Fragment = {''] @
        g_fields g @
        [''};'', [],
         ''export const createMock'' @ fragmentName @ '' = (overwrites: Partial<'' @
           fragmentName @ ''Fragment> = {}): '' @ fragmentName @ ''Fragment => ({'',
         ''  ...default'' @ fragmentName @ '','',
         ''  ...overwrites,'',
         ''});''])\<close>

fun find_fragment :: "document \<Rightarrow> fragment_def option" where
  "find_fragment [] = None"
| "find_fragment (FragmentDefinitionNode f # ds) = Some f"
| "find_fragment (OtherDefinition # ds) = find_fragment ds"

definition processFile ::
  "env \<Rightarrow> (string \<Rightarrow> world \<Rightarrow> world result) \<Rightarrow> schema \<Rightarrow> string \<Rightarrow> registry \<times> world \<Rightarrow>
   (registry \<times> world) result" where
  \<open>processFile e rec schema filePath st =
     (case st of (ids, w) \<Rightarrow>
      (case map_of (files w) filePath of
        None \<Rightarrow> Some (Inl (ENOENT filePath))
      | Some content \<Rightarrow>
      (case gql_parse e content of
        None \<Rightarrow> Some (Inl GraphQLSyntaxError)
      | Some fragmentAst \<Rightarrow>
      (case find_fragment fragmentAst of
        None \<Rightarrow> Some (Inr (ids, w))
      | Some fragment \<Rightarrow>
      (case map_of schema (typeCondition fragment) of
        None \<Rightarrow> Some (Inr (ids, w))
      | Some ty \<Rightarrow>
          (let fragmentName = frag_name fragment;
               fragmentDir = path_dirname e filePath;
               fragmentBase = toKebabCase fragmentName;
               factoryFilePath = path_join e fragmentDir (fragmentBase @ ''.factory.ts'');
               idsRelativePath = toRelativeImport e fragmentDir (IDS_PATH e);
               g0 = \<lparr>g_ids = ids,
                     g_imports = [''import { '' @ fragmentName @ ''Fragment } from "./'' @
                                  fragmentBase @ ''.fragment.generated";''],
                     g_nestedImports = [],
                     g_fields = []\<rparr>
           in case getTopLevelFragmentSpreads e content of
                Inl err \<Rightarrow> Some (Inl err)
              | Inr spreads \<Rightarrow>
                  (case documentFields e rec ty (typeCondition fragment) fragmentDir
                          idsRelativePath (getFieldFragmentMap content) spreads
                          (selections fragment) (g0, w) of
                     None \<Rightarrow> None
                   | Some (Inl err) \<Rightarrow> Some (Inl err)
                   | Some (Inr (g, w')) \<Rightarrow>
                       Some (Inr
                         (g_ids g,
                          w'\<lparr>files := writeFileSync factoryFilePath (fileContent fragmentName g)
                                         (files w'),
                             trace := trace w' @
                               [FileWritten factoryFilePath,
                                LogGenerated (''createMock'' @ fragmentName) factoryFilePath]\<rparr>)))))))))\<close>

subsection \<open>A pass and a run\<close>

text \<open>
  The body of \<^verbatim>\<open>generateFactory\<close> with its recursive call as a parameter, and the
  function itself by recursion on the depth of nested calls it may make.
\<close>

definition generateFactory_body ::
  "env \<Rightarrow> (string \<Rightarrow> world \<Rightarrow> world result) \<Rightarrow> string \<Rightarrow> world \<Rightarrow> world result" where
  "generateFactory_body e rec fragmentPath w =
     (case schema_store w of
        None \<Rightarrow> Some (Inl SchemaLoadError)
      | Some schema \<Rightarrow>
      (case ids_store w of
        None \<Rightarrow> Some (Inl RegistryStoreError)
      | Some ids \<Rightarrow>
          (case forEach (processFile e rec schema)
                  (if fragmentPath \<noteq> [] then [fragmentPath]
                   else glob_sync e (files w) ''src/**/*/*.fragment.gql'')
                  (ids, w) of
             None \<Rightarrow> None
           | Some (Inl err) \<Rightarrow> Some (Inl err)
           | Some (Inr (ids', w')) \<Rightarrow>
               Some (Inr (w'\<lparr>ids_store := Some ids',
                             trace := trace w' @ [RegistrySaved, LogIdsUpdated]\<rparr>)))))"

primrec generateFactory :: "nat \<Rightarrow> env \<Rightarrow> string \<Rightarrow> world \<Rightarrow> world result" where
  "generateFactory 0 e = (\<lambda>fragmentPath w. None)"
| "generateFactory (Suc n) e = generateFactory_body e (generateFactory n e)"

definition main :: "nat \<Rightarrow> env \<Rightarrow> world \<Rightarrow> world result" where
  "main n e w =
     (let fragmentPaths = glob_sync e (files w) ''src/**/*/*.fragment.gql'' in
      if fragmentPaths = [] then Some (Inr (w\<lparr>trace := trace w @ [WarnNoFragments]\<rparr>))
      else forEach (\<lambda>fragmentPath w'.
                      generateFactory n e fragmentPath
                        (w'\<lparr>trace := trace w' @ [LogGenerating fragmentPath]\<rparr>))
             fragmentPaths w)"

section \<open>Notions used in the properties\<close>

text \<open>
  The classification order in the words of the specification: a field named
  \<^verbatim>\<open>id\<close> is an id field whatever its type; otherwise a field whose base type is
  a built-in or declared scalar is a scalar field; otherwise a field whose base
  type is an enum is an enum field; every other field is an object field.
\<close>

datatype field_class = IdField | ScalarField | EnumField | ObjectField

definition classify_spec :: "string \<Rightarrow> gql_type \<Rightarrow> field_class" where
  "classify_spec fieldName ftype =
     (if fieldName = ''id'' then IdField
      else if fst (unwrapType ftype) = ScalarType \<or>
              snd (unwrapType ftype) \<in> {''String'', ''Int'', ''Float'', ''Boolean'', ''ID''}
        then ScalarField
      else if fst (unwrapType ftype) = EnumType then EnumField
      else ObjectField)"

text \<open>
  A line of the default object for a selected field, the names of the selected
  fields of a fragment in declaration order, and the spread references the
  second loop emits: one for each top-level spread whose factory file the glob
  finds.
\<close>

definition field_line :: "string \<Rightarrow> string \<Rightarrow> string" where
  "field_line n x = ''  '' @ n @ '': '' @ x @ '',''"

fun field_names :: "selection list \<Rightarrow> string list" where
  "field_names [] = []"
| "field_names (FieldNode n sub # ss) = n # field_names ss"
| "field_names (s # ss) = field_names ss"

definition factoryFound :: "env \<Rightarrow> (string \<times> string) list \<Rightarrow> string \<Rightarrow> bool" where
  "factoryFound e fs spread =
     (case glob_sync e fs (''src/gql/**/'' @ toKebabCase spread @ ''.factory.ts'') of
        [] \<Rightarrow> False
      | m # others \<Rightarrow> m \<noteq> [])"

definition spreadRefs :: "env \<Rightarrow> (string \<times> string) list \<Rightarrow> string list \<Rightarrow> string list" where
  "spreadRefs e fs spreads =
     map (\<lambda>s. ''  ...createMock'' @ s @ ''(),'') (filter (factoryFound e fs) spreads)"

text \<open>
  Two counts over a stretch of the trace: the saves of the registry store, and
  the nested generations that were started.
\<close>

fun saved :: "event list \<Rightarrow> nat" where
  "saved [] = 0"
| "saved (RegistrySaved # evs) = Suc (saved evs)"
| "saved (ev # evs) = saved evs"

fun nested :: "event list \<Rightarrow> nat" where
  "nested [] = 0"
| "nested (LogNestedFactory s # evs) = Suc (nested evs)"
| "nested (ev # evs) = nested evs"

text \<open>
  The nested document the pass descends into for a selection, in a given file
  system: the first document the glob finds for an object field, when a fragment
  name is read off it and no file exists at its path with \<^verbatim>\<open>.fragment.gql\<close>
  replaced by \<^verbatim>\<open>.factory.ts\<close>. The descents of a document are those of the
  selections of its fragment.
\<close>

definition descent ::
  "env \<Rightarrow> (string \<times> string) list \<Rightarrow> (string \<times> string) list \<Rightarrow> type_def \<Rightarrow> selection \<Rightarrow>
   string option" where
  "descent e fs fieldToFragmentMap ty selection =
     (case selection of
        FieldNode fieldName sub \<Rightarrow>
          (case getFields ty of
             Inl err \<Rightarrow> None
           | Inr fds \<Rightarrow>
               (case map_of fds fieldName of
                  None \<Rightarrow> None
                | Some ftype \<Rightarrow>
                    if fieldName = ''id'' \<or> isScalar (unwrapType ftype) \<or> isEnum (unwrapType ftype)
                    then None
                    else
                      (case fragmentToSearch fieldToFragmentMap fieldName
                              (snd (unwrapType ftype)) of
                         Inl err \<Rightarrow> None
                       | Inr toSearch \<Rightarrow>
                           (case glob_sync e fs
                                   (''src/**/*/'' @ toKebabCase toSearch @ ''.fragment.gql'') of
                              [] \<Rightarrow> None
                            | p # others \<Rightarrow>
                                if p = [] then None
                                else
                                  (case extractFragmentName fs p of
                                     Inl err \<Rightarrow> None
                                   | Inr nestedFragmentName \<Rightarrow>
                                       if existsSync fs
                                            (replace_first ''.fragment.gql'' ''.factory.ts'' p)
                                       then None else Some p)))))
      | FragmentSpreadNode n \<Rightarrow> None
      | InlineFragmentNode sub \<Rightarrow> None)"

definition descents :: "env \<Rightarrow> schema \<Rightarrow> (string \<times> string) list \<Rightarrow> string \<Rightarrow> string list" where
  "descents e schema fs filePath =
     (case map_of fs filePath of
        None \<Rightarrow> []
      | Some content \<Rightarrow>
      (case gql_parse e content of
        None \<Rightarrow> []
      | Some fragmentAst \<Rightarrow>
      (case find_fragment fragmentAst of
        None \<Rightarrow> []
      | Some fragment \<Rightarrow>
      (case map_of schema (typeCondition fragment) of
        None \<Rightarrow> []
      | Some ty \<Rightarrow>
          List.map_filter (descent e fs (getFieldFragmentMap content) ty)
            (selections fragment)))))"

text \<open>
  The descents of a document go at most \<open>n\<close> deep when every chain of
  descents that starts at the document, read off the file system as it is, has
  at most \<open>n\<close> steps.
\<close>

primrec descends_within :: "nat \<Rightarrow> env \<Rightarrow> schema \<Rightarrow> (string \<times> string) list \<Rightarrow> string \<Rightarrow> bool" where
  "descends_within 0 e schema fs filePath = (descents e schema fs filePath = [])"
| "descends_within (Suc n) e schema fs filePath =
     list_all (descends_within n e schema fs) (descents e schema fs filePath)"

text \<open>
  What the termination of nested generation needs of the libraries: the path of
  an artifact ends in \<^verbatim>\<open>.factory.ts\<close>; the glob for a nested fragment document
  returns paths that end in \<^verbatim>\<open>.fragment.gql\<close>, and its result does not change
  when a file whose path ends in \<^verbatim>\<open>.factory.ts\<close> is written.
\<close>

definition artifacts_apart :: "env \<Rightarrow> bool" where
  "artifacts_apart e =
     ((\<forall>dir base. suffix ''.factory.ts'' (path_join e dir (base @ ''.factory.ts''))) \<and>
      (\<forall>fs s p. p \<in> set (glob_sync e fs (''src/**/*/'' @ toKebabCase s @ ''.fragment.gql'')) \<longrightarrow>
                 suffix ''.fragment.gql'' p) \<and>
      (\<forall>fs s p c. suffix ''.factory.ts'' p \<longrightarrow>
                 glob_sync e (writeFileSync p c fs)
                   (''src/**/*/'' @ toKebabCase s @ ''.fragment.gql'') =
                 glob_sync e fs (''src/**/*/'' @ toKebabCase s @ ''.fragment.gql'')))"

text \<open>
  A file system has grown out of another by artifacts when the files whose path
  does not end in \<^verbatim>\<open>.factory.ts\<close> are the same, no file is gone, and the globs
  for nested fragment documents give the same. A computation has settled when it
  has returned or thrown, and, when it has returned, the file system has grown
  by artifacts and the schema is the one it was.
\<close>

definition grown :: "env \<Rightarrow> (string \<times> string) list \<Rightarrow> (string \<times> string) list \<Rightarrow> bool" where
  "grown e fs fs' =
     ((\<forall>p. \<not> suffix ''.factory.ts'' p \<longrightarrow> map_of fs' p = map_of fs p) \<and>
      (\<forall>p. existsSync fs p \<longrightarrow> existsSync fs' p) \<and>
      (\<forall>s. glob_sync e fs' (''src/**/*/'' @ toKebabCase s @ ''.fragment.gql'') =
            glob_sync e fs (''src/**/*/'' @ toKebabCase s @ ''.fragment.gql'')))"

definition settled ::
  "env \<Rightarrow> schema \<Rightarrow> (string \<times> string) list \<Rightarrow> ('a \<Rightarrow> world) \<Rightarrow> 'a result \<Rightarrow> bool" where
  "settled e schema fs proj res =
     (\<exists>r. res = Some r \<and>
          (\<forall>s'. r = Inr s' \<longrightarrow>
                grown e fs (files (proj s')) \<and> schema_store (proj s') = Some schema))"

text \<open>
  The value synthesizer is deterministic when the literal a faker call returns
  does not depend on the state of the random generator. Two worlds are the same
  but for that state when they agree after it is forgotten.
\<close>

definition synthesizer_deterministic :: "env \<Rightarrow> bool" where
  "synthesizer_deterministic e =
     ((\<forall>call r r'. fst (faker e call r) = fst (faker e call r')) \<and>
      (\<forall>r r'. fst (faker_boolean e r) = fst (faker_boolean e r')))"

definition forget :: "world \<Rightarrow> world" where
  "forget w = w\<lparr>rng := 0\<rparr>"

section \<open>A concrete environment\<close>

text \<open>
  An instance of the library parameters, for evaluating the program on concrete
  projects: glob patterns with \<^verbatim>\<open>*\<close> inside a path segment and \<^verbatim>\<open>**\<close> for any
  number of directories, POSIX paths under the working directory \<^verbatim>\<open>/app\<close>, a
  faker whose draws are read off a counter, and the parser as the table of the
  documents used below.
\<close>

fun split_path :: "string \<Rightarrow> string list" where
  "split_path [] = [[]]"
| "split_path (c # cs) =
     (if c = CHR ''/'' then [] # split_path cs
      else (case split_path cs of [] \<Rightarrow> [[c]] | s # ss \<Rightarrow> (c # s) # ss))"

fun wild_match :: "string \<Rightarrow> string \<Rightarrow> bool" where
  "wild_match [] [] = True"
| "wild_match [] (c # cs) = False"
| "wild_match (p # ps) [] = (p = CHR ''*'' \<and> wild_match ps [])"
| "wild_match (p # ps) (c # cs) =
     (if p = CHR ''*'' then wild_match ps (c # cs) \<or> wild_match (p # ps) cs
      else p = c \<and> wild_match ps cs)"

fun glob_match :: "string list \<Rightarrow> string list \<Rightarrow> bool" where
  "glob_match [] [] = True"
| "glob_match [] (s # ss) = False"
| "glob_match (p # ps) [] = (p = ''**'' \<and> glob_match ps [])"
| "glob_match (p # ps) (s # ss) =
     (if p = ''**'' then glob_match ps (s # ss) \<or> glob_match (p # ps) ss
      else wild_match p s \<and> glob_match ps ss)"

definition fast_glob :: "(string \<times> string) list \<Rightarrow> string \<Rightarrow> string list" where
  "fast_glob fs pat =
     filter (\<lambda>p. glob_match (split_path pat) (split_path p)) (map fst fs)"

definition posix_dirname :: "string \<Rightarrow> string" where
  "posix_dirname p =
     (case butlast (split_path p) of
        [] \<Rightarrow> ''.''
      | s # ss \<Rightarrow> join ''/'' (s # ss))"

definition posix_join :: "string \<Rightarrow> string \<Rightarrow> string" where
  "posix_join a b = a @ ''/'' @ b"

fun drop_common :: "string list \<Rightarrow> string list \<Rightarrow> string list \<times> string list" where
  "drop_common (a # as) (b # bs) = (if a = b then drop_common as bs else (a # as, b # bs))"
| "drop_common as bs = (as, bs)"

definition posix_resolve :: "string \<Rightarrow> string" where
  "posix_resolve p = (if prefix ''/'' p then p else ''/app/'' @ p)"

definition posix_relative :: "string \<Rightarrow> string \<Rightarrow> string" where
  "posix_relative src dst =
     (case drop_common (split_path (posix_resolve src)) (split_path (posix_resolve dst)) of
        (up, down) \<Rightarrow> join ''/'' (map (\<lambda>s. ''..'') up @ down))"

fun decimal :: "nat \<Rightarrow> string" where
  "decimal n =
     (if n < 10 then [char_of (48 + n)]
      else decimal (n div 10) @ [char_of (48 + n mod 10)])"

definition counter_faker :: "faker_call \<Rightarrow> nat \<Rightarrow> string \<times> nat" where
  "counter_faker call r =
     (case call of
        NumberInt \<Rightarrow> (decimal (r mod 1001), Suc r)
      | NumberFloat \<Rightarrow> (decimal (r mod 1001), Suc r)
      | InternetEmail \<Rightarrow> (''user'' @ decimal r @ ''@example.com'', Suc r)
      | DateRecent \<Rightarrow> (''2026-01-01T00:00:00.000Z'', Suc r)
      | _ \<Rightarrow> (''word'' @ decimal r, Suc r))"

text \<open>
  The schema of the project: a user with an id, scalars, an enum, a reference to
  its own type and a reference to an image type; a post with an author and
  comments.
\<close>

definition user_type :: type_def where
  "user_type =
     \<lparr>td_kind = ObjectType,
      td_fields = [(''id'', NonNull (Named ScalarType ''ID'')),
                   (''email'', NonNull (Named ScalarType ''String'')),
                   (''age'', Named ScalarType ''Int''),
                   (''role'', NonNull (Named EnumType ''Role'')),
                   (''friend'', Named ObjectType ''User''),
                   (''avatar'', Named ObjectType ''Image'')]\<rparr>"

definition blog_schema :: schema where
  "blog_schema =
     [(''User'', user_type),
      (''Image'',
       \<lparr>td_kind = ObjectType,
        td_fields = [(''url'', NonNull (Named ScalarType ''String''))]\<rparr>),
      (''Comment'',
       \<lparr>td_kind = ObjectType,
        td_fields = [(''author'', Named ObjectType ''User'')]\<rparr>),
      (''Post'',
       \<lparr>td_kind = ObjectType,
        td_fields = [(''id'', NonNull (Named ScalarType ''Int'')),
                     (''author'', Named ObjectType ''User''),
                     (''comments'', ListOf (Named ObjectType ''Comment''))]\<rparr>),
      (''Role'', \<lparr>td_kind = EnumType, td_fields = []\<rparr>)]"

text \<open>A type whose id is a custom scalar, beside a scalar, an enum and an object field.\<close>

definition account_type :: type_def where
  "account_type =
     \<lparr>td_kind = ObjectType,
      td_fields = [(''id'', NonNull (Named ScalarType ''UUID'')),
                   (''email'', NonNull (Named ScalarType ''String'')),
                   (''role'', NonNull (Named EnumType ''Role'')),
                   (''avatar'', Named ObjectType ''Image'')]\<rparr>"

text \<open>The fragment documents of the project, each with what the parser returns for it.\<close>

definition user_path :: string where
  "user_path = ''src/gql/user/user.fragment.gql''"

definition user_text :: string where
  "user_text = ''fragment User on User { id friend { id } }''"

definition user_ast :: document where
  "user_ast =
     [FragmentDefinitionNode
        \<lparr>frag_name = ''User'', typeCondition = ''User'',
         selections = [FieldNode ''id'' [], FieldNode ''friend'' [FieldNode ''id'' []]]\<rparr>]"

definition me_path :: string where
  "me_path = ''src/gql/me/me.fragment.gql''"

definition me_text :: string where
  "me_text = ''query Me { me { id } }''"

definition me_ast :: document where
  "me_ast = [OtherDefinition]"

definition ghost_path :: string where
  "ghost_path = ''src/gql/ghost/ghost.fragment.gql''"

definition ghost_text :: string where
  "ghost_text = ''fragment Ghost on Ghost { id }''"

definition ghost_ast :: document where
  "ghost_ast =
     [FragmentDefinitionNode
        \<lparr>frag_name = ''Ghost'', typeCondition = ''Ghost'', selections = [FieldNode ''id'' []]\<rparr>]"

definition profile_path :: string where
  "profile_path = ''src/gql/profile/profile.fragment.gql''"

definition profile_text :: string where
  "profile_text = ''fragment Profile on User { id age avatar { url } }''"

definition profile_ast :: document where
  "profile_ast =
     [FragmentDefinitionNode
        \<lparr>frag_name = ''Profile'', typeCondition = ''User'',
         selections = [FieldNode ''id'' [], FieldNode ''age'' [], FieldNode ''avatar'' [FieldNode ''url'' []]]\<rparr>]"

definition card_path :: string where
  "card_path = ''src/gql/card/card.fragment.gql''"

definition card_text :: string where
  "card_text = ''fragment Card on User { ...Basics ...Contact role }''"

definition card_ast :: document where
  "card_ast =
     [FragmentDefinitionNode
        \<lparr>frag_name = ''Card'', typeCondition = ''User'',
         selections = [FragmentSpreadNode ''Basics'', FragmentSpreadNode ''Contact'', FieldNode ''role'' []]\<rparr>]"

definition post_path :: string where
  "post_path = ''src/gql/post/post.fragment.gql''"

definition post_text :: string where
  "post_text = ''fragment Post on Post { author { id } comments { author { ...UserInfo } } }''"

definition post_ast :: document where
  "post_ast =
     [FragmentDefinitionNode
        \<lparr>frag_name = ''Post'', typeCondition = ''Post'',
         selections =
           [FieldNode ''author'' [FieldNode ''id'' []],
            FieldNode ''comments'' [FieldNode ''author'' [FragmentSpreadNode ''UserInfo'']]]\<rparr>]"

definition user_info_path :: string where
  "user_info_path = ''src/gql/user-info/user-info.fragment.gql''"

definition user_info_text :: string where
  "user_info_text = ''fragment UserInfo on User { id }''"

definition user_info_ast :: document where
  "user_info_ast =
     [FragmentDefinitionNode
        \<lparr>frag_name = ''UserInfo'', typeCondition = ''User'', selections = [FieldNode ''id'' []]\<rparr>]"

text \<open>
  Two fragments on the type \<^verbatim>\<open>User\<close> that refer to each other through the field
  \<^verbatim>\<open>friend\<close>.
\<close>

definition member_path :: string where
  "member_path = ''src/gql/member/member.fragment.gql''"

definition member_text :: string where
  "member_text = ''fragment Member on User { id friend { ...Buddy } }''"

definition member_ast :: document where
  "member_ast =
     [FragmentDefinitionNode
        \<lparr>frag_name = ''Member'', typeCondition = ''User'',
         selections = [FieldNode ''id'' [], FieldNode ''friend'' [FragmentSpreadNode ''Buddy'']]\<rparr>]"

definition buddy_path :: string where
  "buddy_path = ''src/gql/buddy/buddy.fragment.gql''"

definition buddy_text :: string where
  "buddy_text = ''fragment Buddy on User { id friend { ...Member } }''"

definition buddy_ast :: document where
  "buddy_ast =
     [FragmentDefinitionNode
        \<lparr>frag_name = ''Buddy'', typeCondition = ''User'',
         selections = [FieldNode ''id'' [], FieldNode ''friend'' [FragmentSpreadNode ''Member'']]\<rparr>]"

definition parse_table :: "(string \<times> document) list" where
  "parse_table =
     [(user_text, user_ast), (me_text, me_ast), (ghost_text, ghost_ast),
      (profile_text, profile_ast), (card_text, card_ast), (post_text, post_ast),
      (user_info_text, user_info_ast), (member_text, member_ast), (buddy_text, buddy_ast)]"

definition env0 :: env where
  \<open>env0 =
     \<lparr>gql_parse = map_of parse_table,
      glob_sync = fast_glob,
      path_dirname = posix_dirname,
      path_join = posix_join,
      path_relative = posix_relative,
      IDS_PATH = ''/app/src/gql/ids.ts'',
      faker = counter_faker,
      faker_boolean = (\<lambda>r. (even r, Suc r)),
      resolveEnumAccess =
        (\<lambda>fs enumName dir.
           (enumName @ ''.ADMIN'', Some (''import { '' @ enumName @ '' } from "../types";'')))\<rparr>\<close>

text \<open>A world holding the given files, with an empty registry and no effects yet.\<close>

definition project :: "(string \<times> string) list \<Rightarrow> world" where
  "project fs =
     \<lparr>files = fs, schema_store = Some blog_schema, ids_store = Some [], rng = 0, trace = []\<rparr>"

definition user_world :: world where
  "user_world = project [(user_path, user_text)]"

definition gen0 :: gen where
  "gen0 = \<lparr>g_ids = [], g_imports = [], g_nestedImports = [], g_fields = []\<rparr>"

text \<open>The project of the fragment \<^verbatim>\<open>Card\<close>, with the factories of its two spreads in place.\<close>

definition card_world :: world where
  "card_world =
     project [(card_path, card_text),
              (''src/gql/basics/basics.factory.ts'', ''// generated''),
              (''src/gql/contact/contact.factory.ts'', ''// generated'')]"

text \<open>
  The project of the fragment \<^verbatim>\<open>Post\<close> and of the fragment \<^verbatim>\<open>UserInfo\<close> it
  refers to, before any factory is generated.
\<close>

definition post_world :: world where
  "post_world = project [(post_path, post_text), (user_info_path, user_info_text)]"

text \<open>
  The project of the fragment \<^verbatim>\<open>User\<close>, whose field \<^verbatim>\<open>friend\<close> has the type
  \<^verbatim>\<open>User\<close> again, with the factory of the fragment already on disk.
\<close>

definition user_ready_world :: world where
  "user_ready_world =
     project [(user_path, user_text), (''src/gql/user/user.factory.ts'', ''// generated'')]"

text \<open>
  The project of the fragments \<^verbatim>\<open>Member\<close> and \<^verbatim>\<open>Buddy\<close>, with the factory of
  \<^verbatim>\<open>Member\<close> on disk and none of \<^verbatim>\<open>Buddy\<close>.
\<close>

definition member_world :: world where
  "member_world =
     project [(member_path, member_text), (buddy_path, buddy_text),
              (''src/gql/member/member.factory.ts'', ''// generated'')]"

text \<open>
  The project of the fragment \<^verbatim>\<open>Profile\<close>, and an environment whose faker returns
  the same literal for the same call whatever the state of its generator.
\<close>

definition profile_world :: world where
  "profile_world = project [(profile_path, profile_text)]"

definition fixed_env :: env where
  "fixed_env =
     env0\<lparr>faker := (\<lambda>call r. (fst (counter_faker call 0), Suc r)),
          faker_boolean := (\<lambda>r. (True, Suc r))\<rparr>"

section \<open>Properties\<close>

subsection \<open>The identifier registry\<close>

lemma getProperty_add:
  "getProperty (addPropertyAssignment reg k v) k \<noteq> None"
  by (simp add: getProperty_def addPropertyAssignment_def map_add_Some_iff)

text \<open>
  C4. The registry step of \<^verbatim>\<open>handleIdField\<close> is a get-or-create on the key of
  the type (its name with the first letter in lower case): an entry that exists
  is kept as it is, with no entry added or moved; an absent one is appended as
  the three string literals \<^verbatim>\<open>"1", "2", "3"\<close> when the id scalar is \<^verbatim>\<open>String\<close> or
  \<^verbatim>\<open>ID\<close> and as the numbers \<^verbatim>\<open>1, 2, 3\<close> otherwise; the emitted id field reads
  element 0 of the entry; and a second call for the same type, whatever the
  scalar, leaves the registry as the first call left it.
\<close>

theorem handleIdField_getOrCreate:
  \<open>(getProperty (g_ids g) (toCamelCase typeName) \<noteq> None \<longrightarrow>
      g_ids (handleIdField typeName baseType idsImportPath g) = g_ids g) \<and>
   (getProperty (g_ids g) (toCamelCase typeName) = None \<longrightarrow>
      g_ids (handleIdField typeName baseType idsImportPath g) =
        g_ids g @
        [(toCamelCase typeName,
          if snd baseType = ''String'' \<or> snd baseType = ''ID''
          then ''["1", "2", "3"]'' else ''[1, 2, 3]'')]) \<and>
   g_fields (handleIdField typeName baseType idsImportPath g) =
     g_fields g @ [''  id: ids.'' @ toCamelCase typeName @ ''[0],''] \<and>
   g_ids (handleIdField typeName baseType' idsImportPath'
            (handleIdField typeName baseType idsImportPath g)) =
     g_ids (handleIdField typeName baseType idsImportPath g)\<close>
proof -
  let ?k = "toCamelCase typeName"
  let ?g' = "handleIdField typeName baseType idsImportPath g"
  have kept: "getProperty (g_ids h) ?k \<noteq> None \<Longrightarrow>
              g_ids (handleIdField typeName b p h) = g_ids h" for h b p
    by (auto simp: handleIdField_def Let_def)
  have created: \<open>getProperty (g_ids g) ?k = None \<Longrightarrow>
      g_ids ?g' = g_ids g @
        [(?k, if snd baseType = ''String'' \<or> snd baseType = ''ID''
              then ''["1", "2", "3"]'' else ''[1, 2, 3]'')]\<close>
    by (simp add: handleIdField_def Let_def addPropertyAssignment_def)
  have line: "g_fields ?g' = g_fields g @ [''  id: ids.'' @ ?k @ ''[0],'']"
    by (simp add: handleIdField_def Let_def)
  have again: "getProperty (g_ids ?g') ?k \<noteq> None"
    using getProperty_add [of "g_ids g" ?k]
    by (simp add: handleIdField_def Let_def)
  from kept [of g] created line kept [OF again] show ?thesis
    by blast
qed

theorem handleIdField_getOrCreate_witness:
  \<open>getProperty (g_ids gen0) (toCamelCase ''User'') = None \<and>
   g_ids (handleIdField ''User'' (ScalarType, ''ID'') ''../ids'' gen0) =
     [(''user'', ''["1", "2", "3"]'')] \<and>
   g_ids (handleIdField ''Post'' (ScalarType, ''Int'') ''../ids'' gen0) =
     [(''post'', ''[1, 2, 3]'')] \<and>
   getProperty (g_ids (gen0\<lparr>g_ids := [(''user'', ''[7, 8, 9]'')]\<rparr>)) (toCamelCase ''User'') \<noteq> None \<and>
   g_ids (handleIdField ''User'' (ScalarType, ''ID'') ''../ids''
            (gen0\<lparr>g_ids := [(''user'', ''[7, 8, 9]'')]\<rparr>)) =
     [(''user'', ''[7, 8, 9]'')] \<and>
   g_fields (handleIdField ''User'' (ScalarType, ''ID'') ''../ids'' gen0) =
     [''  id: ids.user[0],'']\<close>
proof -
  have k: "toCamelCase ''User'' = ''user''" "toCamelCase ''Post'' = ''post''"
    by code_simp+
  have absent: "getProperty (g_ids gen0) (toCamelCase ''User'') = None"
               "getProperty (g_ids gen0) (toCamelCase ''Post'') = None"
    by (simp_all add: gen0_def getProperty_def)
  have present:
    "getProperty (g_ids (gen0\<lparr>g_ids := [(''user'', ''[7, 8, 9]'')]\<rparr>)) (toCamelCase ''User'') \<noteq> None"
    by (simp add: k getProperty_def)
  show ?thesis
    using absent present k
      handleIdField_getOrCreate [of gen0 "''User''" "(ScalarType, ''ID'')" "''../ids''"]
      handleIdField_getOrCreate [of gen0 "''Post''" "(ScalarType, ''Int'')" "''../ids''"]
      handleIdField_getOrCreate [of "gen0\<lparr>g_ids := [(''user'', ''[7, 8, 9]'')]\<rparr>" "''User''"
         "(ScalarType, ''ID'')" "''../ids''"]
    by (simp add: gen0_def)
qed

subsection \<open>Field classification\<close>

text \<open>
  C9. For a selected field that the schema type has, the loop body of
  \<^verbatim>\<open>generateFactory\<close> does what the class of the field in that fixed order
  says: the registry step for an id field, a faker literal for a scalar field,
  the enum access for an enum field, the nested fragment handling for an object
  field.
\<close>

theorem classification_order:
  assumes "getFields ty = Inr fs" and "map_of fs fieldName = Some ftype"
  shows "processSelection e rec ty tyName fragmentDir idsRelativePath fieldToFragmentMap
           (FieldNode fieldName sub) gw =
         (case classify_spec fieldName ftype of
            IdField \<Rightarrow>
              Some (Inr (handleIdField tyName (unwrapType ftype) idsRelativePath (fst gw), snd gw))
          | ScalarField \<Rightarrow> Some (Inr (scalarField e fieldName ftype gw))
          | EnumField \<Rightarrow> Some (Inr (enumField e fragmentDir fieldName ftype gw))
          | ObjectField \<Rightarrow>
              nestedField e rec fragmentDir fieldToFragmentMap fieldName ftype gw)"
  using assms
  by (simp add: processSelection_def classify_spec_def isScalar_def isEnum_def)

theorem classification_order_witness:
  "getFields account_type = Inr (td_fields account_type) \<and>
   map_of (td_fields account_type) ''id'' = Some (NonNull (Named ScalarType ''UUID'')) \<and>
   processSelection env0 (\<lambda>p w. None) account_type ''Account'' ''src/gql/account'' ''../ids'' []
     (FieldNode ''id'' []) (gen0, project []) =
     Some (Inr (handleIdField ''Account'' (ScalarType, ''UUID'') ''../ids'' gen0, project [])) \<and>
   processSelection env0 (\<lambda>p w. None) account_type ''Account'' ''src/gql/account'' ''../ids'' []
     (FieldNode ''email'' []) (gen0, project []) =
     Some (Inr (scalarField env0 ''email'' (NonNull (Named ScalarType ''String''))
                  (gen0, project []))) \<and>
   processSelection env0 (\<lambda>p w. None) account_type ''Account'' ''src/gql/account'' ''../ids'' []
     (FieldNode ''role'' []) (gen0, project []) =
     Some (Inr (enumField env0 ''src/gql/account'' ''role'' (NonNull (Named EnumType ''Role''))
                  (gen0, project []))) \<and>
   processSelection env0 (\<lambda>p w. None) account_type ''Account'' ''src/gql/account'' ''../ids'' []
     (FieldNode ''avatar'' []) (gen0, project []) =
     nestedField env0 (\<lambda>p w. None) ''src/gql/account'' [] ''avatar''
       (Named ObjectType ''Image'') (gen0, project [])"
proof -
  have f: "getFields account_type = Inr (td_fields account_type)"
    by (simp add: account_type_def getFields_def)
  have m:
    "map_of (td_fields account_type) ''id'' = Some (NonNull (Named ScalarType ''UUID''))"
    "map_of (td_fields account_type) ''email'' = Some (NonNull (Named ScalarType ''String''))"
    "map_of (td_fields account_type) ''role'' = Some (NonNull (Named EnumType ''Role''))"
    "map_of (td_fields account_type) ''avatar'' = Some (Named ObjectType ''Image'')"
    by (simp_all add: account_type_def)
  have c:
    "classify_spec ''id'' (NonNull (Named ScalarType ''UUID'')) = IdField"
    "classify_spec ''email'' (NonNull (Named ScalarType ''String'')) = ScalarField"
    "classify_spec ''role'' (NonNull (Named EnumType ''Role'')) = EnumField"
    "classify_spec ''avatar'' (Named ObjectType ''Image'') = ObjectField"
    by (simp_all add: classify_spec_def)
  show ?thesis
    using f m c
      classification_order [OF f m(1), of env0 "\<lambda>p w. None" "''Account''" "''src/gql/account''"
        "''../ids''" "[]" "[]" "(gen0, project [])"]
      classification_order [OF f m(2), of env0 "\<lambda>p w. None" "''Account''" "''src/gql/account''"
        "''../ids''" "[]" "[]" "(gen0, project [])"]
      classification_order [OF f m(3), of env0 "\<lambda>p w. None" "''Account''" "''src/gql/account''"
        "''../ids''" "[]" "[]" "(gen0, project [])"]
      classification_order [OF f m(4), of env0 "\<lambda>p w. None" "''Account''" "''src/gql/account''"
        "''../ids''" "[]" "[]" "(gen0, project [])"]
    by simp
qed

subsection \<open>Documents and fields that are passed over\<close>

text \<open>
  C7, as the program has it. A document that parses and holds no fragment
  definition raises nothing: the pass leaves the registry, the files and the
  trace as they are and goes on with the next document.
\<close>

theorem no_fragment_definition_skipped:
  assumes "map_of (files w) filePath = Some content"
    and "gql_parse e content = Some ast"
    and "find_fragment ast = None"
  shows "processFile e rec schema filePath (ids, w) = Some (Inr (ids, w)) \<and>
         forEach (processFile e rec schema) (filePath # rest) (ids, w) =
           forEach (processFile e rec schema) rest (ids, w)"
  using assms by (simp add: processFile_def)

theorem no_fragment_definition_skipped_witness:
  "map_of (files (project [(me_path, me_text), (ghost_path, ghost_text)])) me_path =
     Some me_text \<and>
   gql_parse env0 me_text = Some me_ast \<and>
   find_fragment me_ast = None \<and>
   processFile env0 (\<lambda>p w. None) blog_schema me_path
     ([], project [(me_path, me_text), (ghost_path, ghost_text)]) =
     Some (Inr ([], project [(me_path, me_text), (ghost_path, ghost_text)]))"
proof -
  have a: "map_of (files (project [(me_path, me_text), (ghost_path, ghost_text)])) me_path =
             Some me_text"
    by (simp add: project_def)
  have b: "gql_parse env0 me_text = Some me_ast"
    by code_simp
  have c: "find_fragment me_ast = None"
    by (simp add: me_ast_def)
  from no_fragment_definition_skipped [OF a b c] a b c show ?thesis
    by simp
qed

text \<open>
  The claim C7 as stated fails: the pass over a document that holds a query and
  no fragment returns, with nothing thrown; it only saves the registry.
\<close>

theorem no_fragment_definition_counterexample:
  "find_fragment (the (gql_parse env0 me_text)) = None \<and>
   generateFactory 1 env0 me_path (project [(me_path, me_text)]) =
     Some (Inr ((project [(me_path, me_text)])\<lparr>trace := [RegistrySaved, LogIdsUpdated]\<rparr>))"
  by code_simp

text \<open>
  C6, as the program has it. A fragment whose type condition names a type that
  the schema does not have raises nothing either: the document is passed over,
  nothing is written, and the loop goes on with the next document.
\<close>

theorem absent_type_condition_skipped:
  assumes "map_of (files w) filePath = Some content"
    and "gql_parse e content = Some ast"
    and "find_fragment ast = Some fragment"
    and "map_of schema (typeCondition fragment) = None"
  shows "processFile e rec schema filePath (ids, w) = Some (Inr (ids, w)) \<and>
         forEach (processFile e rec schema) (filePath # rest) (ids, w) =
           forEach (processFile e rec schema) rest (ids, w)"
  using assms by (simp add: processFile_def)

theorem absent_type_condition_skipped_witness:
  "map_of (files (project [(ghost_path, ghost_text)])) ghost_path = Some ghost_text \<and>
   gql_parse env0 ghost_text = Some ghost_ast \<and>
   map_option typeCondition (find_fragment ghost_ast) = Some ''Ghost'' \<and>
   map_of blog_schema ''Ghost'' = None \<and>
   processFile env0 (\<lambda>p w. None) blog_schema ghost_path ([], project [(ghost_path, ghost_text)]) =
     Some (Inr ([], project [(ghost_path, ghost_text)]))"
proof -
  let ?f = "\<lparr>frag_name = ''Ghost'', typeCondition = ''Ghost'', selections = [FieldNode ''id'' []]\<rparr>"
  have a: "map_of (files (project [(ghost_path, ghost_text)])) ghost_path = Some ghost_text"
    by (simp add: project_def)
  have b: "gql_parse env0 ghost_text = Some ghost_ast"
    by code_simp
  have c: "find_fragment ghost_ast = Some ?f"
    by (simp add: ghost_ast_def)
  have d: "map_of blog_schema (typeCondition ?f) = None"
    by (simp add: blog_schema_def)
  from absent_type_condition_skipped [OF a b c d] a b c d show ?thesis
    by simp
qed

text \<open>
  The claim C6 as stated fails: the pass over a fragment on the type \<^verbatim>\<open>Ghost\<close>,
  which the schema does not have, returns with nothing thrown.
\<close>

theorem absent_type_condition_counterexample:
  "map_option typeCondition (find_fragment (the (gql_parse env0 ghost_text))) = Some ''Ghost'' \<and>
   map_of blog_schema ''Ghost'' = None \<and>
   generateFactory 1 env0 ghost_path (project [(ghost_path, ghost_text)]) =
     Some (Inr ((project [(ghost_path, ghost_text)])\<lparr>trace := [RegistrySaved, LogIdsUpdated]\<rparr>))"
  by code_simp

text \<open>
  A selected field that the schema type does not have is another matter: reading
  the type of the missing field throws, and the throw ends the pass.
\<close>

lemma absent_field_throws:
  assumes "getFields ty = Inr fs" and "map_of fs fieldName = None"
  shows "processSelection e rec ty tyName fragmentDir idsRelativePath fieldToFragmentMap
           (FieldNode fieldName sub) gw = Some (Inl TypeError)"
  using assms by (simp add: processSelection_def)

text \<open>
  C8, as the program has it. For an object field that has an entry in the map
  of fields to fragments, or whose name is not the name of a member of
  \<^verbatim>\<open>Object.prototype\<close>, the name of the nested fragment to search for is
  determined; and when the glob finds no document for that name, the field
  leaves the buffers and the world as they are (no field, no import, no console
  output, nothing thrown), and the loop goes on with the remaining selections.
\<close>

theorem missing_nested_fragment_skipped:
  assumes "getFields ty = Inr fs"
    and "map_of fs fieldName = Some ftype"
    and "fieldName \<noteq> ''id''"
    and "\<not> isScalar (unwrapType ftype)"
    and "\<not> isEnum (unwrapType ftype)"
    and "fieldName \<in> fst ` set fieldToFragmentMap \<or> fieldName \<notin> set object_prototype_keys"
  shows "\<exists>toSearch.
           fragmentToSearch fieldToFragmentMap fieldName (snd (unwrapType ftype)) = Inr toSearch \<and>
           (glob_sync e (files w) (''src/**/*/'' @ toKebabCase toSearch @ ''.fragment.gql'') = [] \<longrightarrow>
            processSelection e rec ty tyName fragmentDir idsRelativePath fieldToFragmentMap
              (FieldNode fieldName sub) (g, w) = Some (Inr (g, w)) \<and>
            forEach (processSelection e rec ty tyName fragmentDir idsRelativePath fieldToFragmentMap)
              (FieldNode fieldName sub # rest) (g, w) =
            forEach (processSelection e rec ty tyName fragmentDir idsRelativePath fieldToFragmentMap)
              rest (g, w))"
proof -
  from assms(6) have "get_property fieldToFragmentMap fieldName \<noteq> Inherited"
    by (auto simp: get_property_def map_of_eq_None_iff split: option.splits)
  then obtain toSearch where
    t: "fragmentToSearch fieldToFragmentMap fieldName (snd (unwrapType ftype)) = Inr toSearch"
    by (cases "get_property fieldToFragmentMap fieldName") (simp_all add: fragmentToSearch_def)
  with assms(1-5) show ?thesis
    by (simp add: processSelection_def nestedField_def)
qed

theorem missing_nested_fragment_skipped_witness:
  "getFields user_type = Inr (td_fields user_type) \<and>
   map_of (td_fields user_type) ''avatar'' = Some (Named ObjectType ''Image'') \<and>
   \<not> isScalar (ObjectType, ''Image'') \<and> \<not> isEnum (ObjectType, ''Image'') \<and>
   ''avatar'' \<notin> set object_prototype_keys \<and>
   fragmentToSearch (getFieldFragmentMap profile_text) ''avatar'' ''Image'' = Inr ''Image'' \<and>
   glob_sync env0 (files (project [(profile_path, profile_text)]))
     (''src/**/*/'' @ toKebabCase ''Image'' @ ''.fragment.gql'') = [] \<and>
   processSelection env0 (\<lambda>p w. None) user_type ''User'' ''src/gql/profile'' ''../ids''
     (getFieldFragmentMap profile_text) (FieldNode ''avatar'' [FieldNode ''url'' []])
     (gen0, project [(profile_path, profile_text)]) =
   Some (Inr (gen0, project [(profile_path, profile_text)]))"
proof -
  have f: "getFields user_type = Inr (td_fields user_type)"
    by (simp add: user_type_def getFields_def)
  have m: "map_of (td_fields user_type) ''avatar'' = Some (Named ObjectType ''Image'')"
    by (simp add: user_type_def)
  have n: "''avatar'' \<noteq> ''id''"
    by simp
  have s: "\<not> isScalar (unwrapType (Named ObjectType ''Image''))"
    by (simp add: isScalar_def)
  have en: "\<not> isEnum (unwrapType (Named ObjectType ''Image''))"
    by (simp add: isEnum_def)
  have k: "''avatar'' \<notin> set object_prototype_keys"
    by (simp add: object_prototype_keys_def)
  then have k': "''avatar'' \<in> fst ` set (getFieldFragmentMap profile_text) \<or>
                 ''avatar'' \<notin> set object_prototype_keys"
    by simp
  have t: "fragmentToSearch (getFieldFragmentMap profile_text) ''avatar''
             (snd (unwrapType (Named ObjectType ''Image''))) = Inr ''Image''"
    by code_simp
  have gl: "glob_sync env0 (files (project [(profile_path, profile_text)]))
              (''src/**/*/'' @ toKebabCase ''Image'' @ ''.fragment.gql'') = []"
    by code_simp
  from missing_nested_fragment_skipped
         [OF f m n s en k', of env0 "project [(profile_path, profile_text)]" "\<lambda>p w. None"
            "''User''" "''src/gql/profile''" "''../ids''" "[FieldNode ''url'' []]" gen0 "[]"]
       f m s en k t gl
  show ?thesis
    by simp
qed

text \<open>
  The claim C8 as stated fails in one point: no warning is logged. The pass over
  a fragment whose field \<^verbatim>\<open>avatar\<close> has no nested fragment document writes the
  artifact and prints the two lines of every pass, and nothing else.
\<close>

theorem missing_nested_fragment_counterexample:
  "fast_glob [(profile_path, profile_text)] ''src/**/*/image.fragment.gql'' = [] \<and>
   map_option (map_sum id trace)
     (generateFactory 1 env0 profile_path (project [(profile_path, profile_text)])) =
   Some (Inr [FileWritten ''src/gql/profile/profile.factory.ts'',
              LogGenerated ''createMockProfile'' ''src/gql/profile/profile.factory.ts'',
              RegistrySaved, LogIdsUpdated])"
  by code_simp

text \<open>
  An object field without an entry in the map whose name is the name of a member
  of \<^verbatim>\<open>Object.prototype\<close> is another matter: the lookup gives the inherited
  member, its case conversion throws, and the throw ends the pass before any
  document is searched.
\<close>

lemma prototype_member_field_throws:
  assumes "getFields ty = Inr fs"
    and "map_of fs fieldName = Some ftype"
    and "fieldName \<noteq> ''id''"
    and "\<not> isScalar (unwrapType ftype)"
    and "\<not> isEnum (unwrapType ftype)"
    and "fieldName \<notin> fst ` set fieldToFragmentMap"
    and "fieldName \<in> set object_prototype_keys"
  shows "processSelection e rec ty tyName fragmentDir idsRelativePath fieldToFragmentMap
           (FieldNode fieldName sub) (g, w) = Some (Inl TypeError)"
proof -
  from assms(6,7) have "get_property fieldToFragmentMap fieldName = Inherited"
    by (auto simp: get_property_def map_of_eq_None_iff split: option.splits)
  with assms(1-5) show ?thesis
    by (simp add: processSelection_def nestedField_def fragmentToSearch_def)
qed

subsection \<open>The order of the emitted fields\<close>

lemma spreadLoop_fields:
  "g_fields (spreadLoop e dir fs spreads g) = rev (spreadRefs e fs spreads) @ g_fields g"
  by (induction spreads arbitrary: g)
     (auto simp: spreadRefs_def factoryFound_def split: list.splits)

lemma handleIdField_line:
  "g_fields (handleIdField tyName b p g) =
     g_fields g @ [field_line ''id'' (''ids.'' @ toCamelCase tyName @ ''[0]'')]"
  by (simp add: handleIdField_def Let_def field_line_def)

lemma scalarField_line:
  "\<exists>x. g_fields (fst (scalarField e n t (g, w))) = g_fields g @ [field_line n x]"
proof (cases "isListTypeDeep t")
  case True
  obtain v r where "getFakerMockForScalar e (snd (unwrapType t)) n (rng w) = (v, r)"
    by (cases "getFakerMockForScalar e (snd (unwrapType t)) n (rng w)")
  with True have "g_fields (fst (scalarField e n t (g, w))) =
      g_fields g @ [field_line n (''['' @ v @ '']'')]"
    by (simp add: scalarField_def field_line_def)
  then show ?thesis ..
next
  case False
  obtain v r where "getFakerMockForScalar e (snd (unwrapType t)) n (rng w) = (v, r)"
    by (cases "getFakerMockForScalar e (snd (unwrapType t)) n (rng w)")
  with False have "g_fields (fst (scalarField e n t (g, w))) = g_fields g @ [field_line n v]"
    by (simp add: scalarField_def field_line_def)
  then show ?thesis ..
qed

lemma enumField_line:
  "\<exists>x. g_fields (fst (enumField e dir n t (g, w))) = g_fields g @ [field_line n x]"
proof -
  obtain v i where "resolveEnumAccess e (files w) (snd (unwrapType t)) dir = (v, i)"
    by (cases "resolveEnumAccess e (files w) (snd (unwrapType t)) dir")
  then have "g_fields (fst (enumField e dir n t (g, w))) = g_fields g @ [field_line n v]"
    by (simp add: enumField_def field_line_def)
  then show ?thesis ..
qed

lemma nestedField_line:
  assumes "nestedField e rec dir m n t (g, w) = Some (Inr (g', w'))"
  shows "g_fields g' = g_fields g \<or> (\<exists>x. g_fields g' = g_fields g @ [field_line n x])"
proof (cases "g_fields g' = g_fields g")
  case True
  then show ?thesis ..
next
  case False
  from assms False obtain nm where
    "g_fields g' = g_fields g @
       [if isListTypeDeep t then ''  '' @ n @ '': ['' @ nm @ ''()],''
        else ''  '' @ n @ '': '' @ nm @ ''(),'']"
    by (auto simp: nestedField_def Let_def
             split: sum.splits list.splits if_splits option.splits)
  then have "g_fields g' = g_fields g @
      [field_line n (if isListTypeDeep t then ''['' @ nm @ ''()]'' else nm @ ''()'')]"
    by (simp add: field_line_def)
  then show ?thesis by blast
qed

lemma processSelection_line:
  assumes "processSelection e rec ty tyName dir idsPath m sel (g, w) = Some (Inr (g', w'))"
  shows "g_fields g' = g_fields g \<or>
         (\<exists>n sub x. sel = FieldNode n sub \<and> g_fields g' = g_fields g @ [field_line n x])"
proof (cases sel)
  case (FieldNode n sub)
  show ?thesis
  proof (cases "getFields ty")
    case (Inl err)
    with assms FieldNode show ?thesis by (simp add: processSelection_def)
  next
    case (Inr fs)
    show ?thesis
    proof (cases "map_of fs n")
      case None
      with assms FieldNode Inr show ?thesis by (simp add: processSelection_def)
    next
      case (Some t)
      consider (id) "n = ''id''"
        | (scalar) "n \<noteq> ''id''" "isScalar (unwrapType t)"
        | (enum) "n \<noteq> ''id''" "\<not> isScalar (unwrapType t)" "isEnum (unwrapType t)"
        | (nested) "n \<noteq> ''id''" "\<not> isScalar (unwrapType t)" "\<not> isEnum (unwrapType t)"
        by blast
      then show ?thesis
      proof cases
        case id
        with assms FieldNode Inr Some
        have "g' = handleIdField tyName (unwrapType t) idsPath g"
          by (simp add: processSelection_def)
        with FieldNode id handleIdField_line [of tyName "unwrapType t" idsPath g]
        show ?thesis by blast
      next
        case scalar
        with assms FieldNode Inr Some
        have "g' = fst (scalarField e n t (g, w))"
          by (auto simp: processSelection_def)
        with FieldNode scalarField_line [of e n t g w] show ?thesis by blast
      next
        case enum
        with assms FieldNode Inr Some
        have "g' = fst (enumField e dir n t (g, w))"
          by (auto simp: processSelection_def)
        with FieldNode enumField_line [of e dir n t g w] show ?thesis by blast
      next
        case nested
        with assms FieldNode Inr Some
        have "nestedField e rec dir m n t (g, w) = Some (Inr (g', w'))"
          by (simp add: processSelection_def)
        from nestedField_line [OF this] FieldNode show ?thesis by blast
      qed
    qed
  qed
next
  case (FragmentSpreadNode n)
  with assms show ?thesis by (simp add: processSelection_def)
next
  case (InlineFragmentNode sub)
  with assms show ?thesis by (simp add: processSelection_def)
qed

lemma selection_loop_lines:
  assumes "forEach (processSelection e rec ty tyName dir idsPath m) sels (g, w) =
             Some (Inr (g', w'))"
  shows "\<exists>emitted. g_fields g' = g_fields g @ map (\<lambda>(n, x). field_line n x) emitted \<and>
                   subseq (map fst emitted) (field_names sels)"
  using assms
proof (induction sels arbitrary: g w)
  case Nil
  then have "g' = g" by simp
  then have "g_fields g' = g_fields g @ map (\<lambda>(n, x). field_line n x) [] \<and>
             subseq (map fst ([] :: (string \<times> string) list)) (field_names [])"
    by simp
  then show ?case by blast
next
  case (Cons sel sels)
  from Cons.prems obtain g1 w1 where
    step: "processSelection e rec ty tyName dir idsPath m sel (g, w) = Some (Inr (g1, w1))" and
    rest: "forEach (processSelection e rec ty tyName dir idsPath m) sels (g1, w1) =
             Some (Inr (g', w'))"
    by (auto split: option.splits sum.splits)
  from Cons.IH [OF rest] obtain emitted where
    em: "g_fields g' = g_fields g1 @ map (\<lambda>(n, x). field_line n x) emitted" and
    sub: "subseq (map fst emitted) (field_names sels)"
    by blast
  from processSelection_line [OF step] show ?case
  proof
    assume same: "g_fields g1 = g_fields g"
    have "subseq (field_names sels) (field_names (sel # sels))"
      by (cases sel) (simp_all add: list_emb_Cons)
    with sub have "subseq (map fst emitted) (field_names (sel # sels))"
      by (rule subseq_order.trans)
    with em same show ?thesis by auto
  next
    assume "\<exists>n sub x. sel = FieldNode n sub \<and> g_fields g1 = g_fields g @ [field_line n x]"
    then obtain n sb x where
      sel: "sel = FieldNode n sb" and one: "g_fields g1 = g_fields g @ [field_line n x]"
      by blast
    have "g_fields g' = g_fields g @ map (\<lambda>(n, x). field_line n x) ((n, x) # emitted)"
      using em one by simp
    moreover have "subseq (map fst ((n, x) # emitted)) (field_names (sel # sels))"
      using sub sel by simp
    ultimately show ?thesis by blast
  qed
qed

text \<open>
  C3, as the program has it. When the buffers of a document are complete, the
  field lines are: first the references of the top-level spreads whose factory
  file is found, in the reverse of their declaration order (each is put in
  front of what is there); then one line per emitted explicit field, the names
  in fragment declaration order (a field whose nested fragment is not found has
  no line); then the \<^verbatim>\<open>__typename\<close> line, last.
\<close>

theorem default_object_field_order:
  assumes "documentFields e rec ty tyName dir idsPath m spreads sels (g, w) =
             Some (Inr (g', w'))"
    and "g_fields g = []"
  shows \<open>\<exists>emitted.
           g_fields g' =
             rev (spreadRefs e (files w') spreads) @
             map (\<lambda>(n, x). field_line n x) emitted @
             [''  __typename: "'' @ tyName @ ''",''] \<and>
           subseq (map fst emitted) (field_names sels)\<close>
proof -
  from assms(1) obtain g1 where
    loop: "forEach (processSelection e rec ty tyName dir idsPath m) sels (g, w) =
             Some (Inr (g1, w'))" and
    g': \<open>g' = (spreadLoop e dir (files w') spreads g1)
            \<lparr>g_fields := g_fields (spreadLoop e dir (files w') spreads g1) @
                           [''  __typename: "'' @ tyName @ ''",'']\<rparr>\<close>
    by (auto simp: documentFields_def Let_def split: option.splits sum.splits)
  from selection_loop_lines [OF loop] assms(2) obtain emitted where
    em: "g_fields g1 = map (\<lambda>(n, x). field_line n x) emitted" and
    sub: "subseq (map fst emitted) (field_names sels)"
    by auto
  have \<open>g_fields g' =
          rev (spreadRefs e (files w') spreads) @
          map (\<lambda>(n, x). field_line n x) emitted @ [''  __typename: "'' @ tyName @ ''",'']\<close>
    unfolding g' by (simp add: spreadLoop_fields em)
  with sub show ?thesis by blast
qed

theorem default_object_field_order_witness:
  \<open>documentFields env0 (\<lambda>p w. None) user_type ''User'' ''src/gql/card'' ''../ids''
     (getFieldFragmentMap card_text) [''Basics'', ''Contact'']
     [FragmentSpreadNode ''Basics'', FragmentSpreadNode ''Contact'', FieldNode ''role'' []]
     (gen0, card_world) =
   Some (Inr
     (\<lparr>g_ids = [], g_imports = [],
       g_nestedImports =
         [''import { Role } from "../types";'',
          ''import { createMockBasics } from "../basics/basics.factory";'',
          ''import { createMockContact } from "../contact/contact.factory";''],
       g_fields =
         [''  ...createMockContact(),'', ''  ...createMockBasics(),'',
          ''  role: Role.ADMIN,'', ''  __typename: "User",'']\<rparr>,
      card_world)) \<and>
   g_fields gen0 = [] \<and>
   (\<exists>emitted.
      [''  ...createMockContact(),'', ''  ...createMockBasics(),'',
       ''  role: Role.ADMIN,'', ''  __typename: "User",''] =
        rev (spreadRefs env0 (files card_world) [''Basics'', ''Contact'']) @
        map (\<lambda>(n, x). field_line n x) emitted @ [''  __typename: "'' @ ''User'' @ ''",''] \<and>
      subseq (map fst emitted)
        (field_names
           [FragmentSpreadNode ''Basics'', FragmentSpreadNode ''Contact'',
            FieldNode ''role'' []]))\<close>
proof -
  have run:
    \<open>documentFields env0 (\<lambda>p w. None) user_type ''User'' ''src/gql/card'' ''../ids''
       (getFieldFragmentMap card_text) [''Basics'', ''Contact'']
       [FragmentSpreadNode ''Basics'', FragmentSpreadNode ''Contact'', FieldNode ''role'' []]
       (gen0, card_world) =
     Some (Inr
       (\<lparr>g_ids = [], g_imports = [],
         g_nestedImports =
           [''import { Role } from "../types";'',
            ''import { createMockBasics } from "../basics/basics.factory";'',
            ''import { createMockContact } from "../contact/contact.factory";''],
         g_fields =
           [''  ...createMockContact(),'', ''  ...createMockBasics(),'',
            ''  role: Role.ADMIN,'', ''  __typename: "User",'']\<rparr>,
        card_world))\<close>
    by code_simp
  have empty: "g_fields gen0 = []"
    by (simp add: gen0_def)
  from default_object_field_order [OF run empty] run empty show ?thesis
    by simp
qed

text \<open>
  The claim C3 as stated fails: the fragment \<^verbatim>\<open>Card\<close> spreads \<^verbatim>\<open>Basics\<close> and then
  \<^verbatim>\<open>Contact\<close>, and its artifact lists the reference to \<^verbatim>\<open>Contact\<close> first.
\<close>

theorem spread_order_counterexample:
  \<open>topLevelSpreads card_ast = [''Basics'', ''Contact''] \<and>
   map_option (map_sum id (\<lambda>w. map_of (files w) ''src/gql/card/card.factory.ts''))
     (generateFactory 1 env0 card_path card_world) =
   Some (Inr (Some (join [CHR 0x0A]
     [''import { CardFragment } from "./card.fragment.generated";'',
      ''import { Role } from "../types";'',
      ''import { createMockBasics } from "../basics/basics.factory";'',
      ''import { createMockContact } from "../contact/contact.factory";'',
      [],
      ''const defaultCard: CardFragment = {'',
      ''  ...createMockContact(),'',
      ''  ...createMockBasics(),'',
      ''  role: Role.ADMIN,'',
      ''  __typename: "User",'',
      ''};'',
      [],
      ''export const createMockCard = (overwrites: Partial<CardFragment> = {}): CardFragment => ({'',
      ''  ...defaultCard,'',
      ''  ...overwrites,'',
      ''});''])))\<close>
  by code_simp

subsection \<open>When the registry is saved\<close>

lemma saved_append: "saved (xs @ ys) = saved xs + saved ys"
  by (induction xs rule: saved.induct) simp_all

lemma nested_append: "nested (xs @ ys) = nested xs + nested ys"
  by (induction xs rule: nested.induct) simp_all

lemma forEach_events:
  assumes step: "\<And>x s s'. body x s = Some (Inr s') \<Longrightarrow>
                   \<exists>evs. tr s' = tr s @ evs \<and> saved evs = k + nested evs"
    and run: "forEach body xs s = Some (Inr s')"
  shows "\<exists>evs. tr s' = tr s @ evs \<and> saved evs = k * length xs + nested evs"
  using run
proof (induction xs arbitrary: s)
  case Nil
  then have "tr s' = tr s @ [] \<and> saved [] = k * length ([] :: 'a list) + nested []"
    by simp
  then show ?case by blast
next
  case (Cons x xs)
  from Cons.prems obtain s1 where
    first: "body x s = Some (Inr s1)" and rest: "forEach body xs s1 = Some (Inr s')"
    by (auto split: option.splits sum.splits)
  from step [OF first] obtain evs1 where
    e1: "tr s1 = tr s @ evs1" "saved evs1 = k + nested evs1"
    by blast
  from Cons.IH [OF rest] obtain evs2 where
    e2: "tr s' = tr s1 @ evs2" "saved evs2 = k * length xs + nested evs2"
    by blast
  have "tr s' = tr s @ (evs1 @ evs2) \<and>
        saved (evs1 @ evs2) = k * length (x # xs) + nested (evs1 @ evs2)"
    using e1 e2 by (simp add: saved_append nested_append)
  then show ?case by blast
qed

lemma nestedField_events:
  assumes rec: "\<And>p w w'. rec p w = Some (Inr w') \<Longrightarrow>
                  \<exists>evs. trace w' = trace w @ evs \<and> saved evs = Suc (nested evs)"
    and run: "nestedField e rec dir m n t (g, w) = Some (Inr (g', w'))"
  shows "\<exists>evs. trace w' = trace w @ evs \<and> saved evs = nested evs"
proof (cases "w' = w")
  case True
  then have "trace w' = trace w @ [] \<and> saved [] = nested []" by simp
  then show ?thesis by blast
next
  case False
  with run obtain p ts where
    call: "rec p (w\<lparr>trace := trace w @ [LogNestedFactory ts]\<rparr>) = Some (Inr w')"
    by (auto simp: nestedField_def Let_def
             split: sum.splits list.splits if_splits option.splits)
  from rec [OF call] obtain evs where
    "trace w' = (trace w @ [LogNestedFactory ts]) @ evs" "saved evs = Suc (nested evs)"
    by auto
  then have "trace w' = trace w @ (LogNestedFactory ts # evs) \<and>
             saved (LogNestedFactory ts # evs) = nested (LogNestedFactory ts # evs)"
    by simp
  then show ?thesis by blast
qed

lemma processSelection_events:
  assumes rec: "\<And>p w w'. rec p w = Some (Inr w') \<Longrightarrow>
                  \<exists>evs. trace w' = trace w @ evs \<and> saved evs = Suc (nested evs)"
    and run: "processSelection e rec ty tyName dir idsPath m sel gw = Some (Inr gw')"
  shows "\<exists>evs. trace (snd gw') = trace (snd gw) @ evs \<and> saved evs = 0 + nested evs"
proof (cases "trace (snd gw') = trace (snd gw)")
  case True
  then have "trace (snd gw') = trace (snd gw) @ [] \<and> saved [] = 0 + nested []" by simp
  then show ?thesis by blast
next
  case False
  obtain g w g' w' where gw: "gw = (g, w)" "gw' = (g', w')"
    by (cases gw, cases gw') auto
  from run False gw obtain n t where
    nf: "nestedField e rec dir m n t (g, w) = Some (Inr (g', w'))"
    by (auto simp: processSelection_def scalarField_def enumField_def
             split: selection.splits sum.splits option.splits if_splits prod.splits)
  have "\<exists>evs. trace w' = trace w @ evs \<and> saved evs = nested evs"
    by (rule nestedField_events [where rec = rec, OF _ nf]) (erule rec)
  with gw show ?thesis by simp
qed

lemma documentFields_events:
  assumes rec: "\<And>p w w'. rec p w = Some (Inr w') \<Longrightarrow>
                  \<exists>evs. trace w' = trace w @ evs \<and> saved evs = Suc (nested evs)"
    and run: "documentFields e rec ty tyName dir idsPath m spreads sels (g0, w) =
                Some (Inr (g, w1))"
  shows "\<exists>evs. trace w1 = trace w @ evs \<and> saved evs = nested evs"
proof -
  let ?body = "processSelection e rec ty tyName dir idsPath m"
  from run obtain g1 where loop: "forEach ?body sels (g0, w) = Some (Inr (g1, w1))"
    by (auto simp: documentFields_def Let_def split: option.splits sum.splits)
  have step: "\<exists>evs. trace (snd s') = trace (snd s) @ evs \<and> saved evs = 0 + nested evs"
    if "?body x s = Some (Inr s')" for x s s'
    by (rule processSelection_events [where rec = rec, OF _ that]) (erule rec)
  have "\<exists>evs. trace (snd (g1, w1)) = trace (snd (g0, w)) @ evs \<and>
              saved evs = 0 * length sels + nested evs"
    by (rule forEach_events [where body = ?body, OF _ loop]) (erule step)
  then show ?thesis by simp
qed

lemma processFile_cases:
  assumes "processFile e rec schema filePath (ids, w) = Some (Inr (ids', w'))"
  shows "w' = w \<or>
         (\<exists>ty tyName dir idsPath m spreads sels g0 g w1 p c name.
            documentFields e rec ty tyName dir idsPath m spreads sels (g0, w) =
              Some (Inr (g, w1)) \<and>
            w' = w1\<lparr>files := writeFileSync p c (files w1),
                     trace := trace w1 @ [FileWritten p, LogGenerated name p]\<rparr>)"
  using assms
  by (fastforce simp: processFile_def Let_def split: option.splits sum.splits)

lemma processFile_events:
  assumes rec: "\<And>p w w'. rec p w = Some (Inr w') \<Longrightarrow>
                  \<exists>evs. trace w' = trace w @ evs \<and> saved evs = Suc (nested evs)"
    and run: "processFile e rec schema filePath st = Some (Inr st')"
  shows "\<exists>evs. trace (snd st') = trace (snd st) @ evs \<and> saved evs = 0 + nested evs"
proof -
  obtain ids w ids' w' where st: "st = (ids, w)" "st' = (ids', w')"
    by (cases st, cases st') auto
  from processFile_cases [OF run [unfolded st]] show ?thesis
  proof
    assume "w' = w"
    then have "trace (snd st') = trace (snd st) @ [] \<and> saved [] = 0 + nested []"
      using st by simp
    then show ?thesis by blast
  next
    assume "\<exists>ty tyName dir idsPath m spreads sels g0 g w1 p c name.
            documentFields e rec ty tyName dir idsPath m spreads sels (g0, w) =
              Some (Inr (g, w1)) \<and>
            w' = w1\<lparr>files := writeFileSync p c (files w1),
                     trace := trace w1 @ [FileWritten p, LogGenerated name p]\<rparr>"
    then obtain ty tyName dir idsPath m spreads sels g0 g w1 p c name where
      fields: "documentFields e rec ty tyName dir idsPath m spreads sels (g0, w) =
                 Some (Inr (g, w1))" and
      w': "w' = w1\<lparr>files := writeFileSync p c (files w1),
                      trace := trace w1 @ [FileWritten p, LogGenerated name p]\<rparr>"
      by blast
    have "\<exists>evs. trace w1 = trace w @ evs \<and> saved evs = nested evs"
      by (rule documentFields_events [where rec = rec, OF _ fields]) (erule rec)
    then obtain evs where e: "trace w1 = trace w @ evs" "saved evs = nested evs"
      by blast
    let ?evs = "evs @ [FileWritten p, LogGenerated name p]"
    have "trace (snd st') = trace (snd st) @ ?evs \<and> saved ?evs = 0 + nested ?evs"
      using e st w' by (simp add: saved_append nested_append)
    then show ?thesis by blast
  qed
qed

lemma generateFactory_body_events:
  assumes rec: "\<And>p w w'. rec p w = Some (Inr w') \<Longrightarrow>
                  \<exists>evs. trace w' = trace w @ evs \<and> saved evs = Suc (nested evs)"
    and run: "generateFactory_body e rec fragmentPath w = Some (Inr w')"
  shows "\<exists>evs. trace w' = trace w @ evs @ [RegistrySaved, LogIdsUpdated] \<and>
               saved evs = nested evs"
proof -
  from run obtain schema ids fs ids' w1 where
    loop: "forEach (processFile e rec schema) fs (ids, w) = Some (Inr (ids', w1))" and
    w': "w' = w1\<lparr>ids_store := Some ids', trace := trace w1 @ [RegistrySaved, LogIdsUpdated]\<rparr>"
    by (auto simp: generateFactory_body_def split: option.splits sum.splits)
  have step: "\<exists>evs. trace (snd s') = trace (snd s) @ evs \<and> saved evs = 0 + nested evs"
    if "processFile e rec schema x s = Some (Inr s')" for x s s'
    by (rule processFile_events [where rec = rec, OF _ that]) (erule rec)
  have "\<exists>evs. trace (snd (ids', w1)) = trace (snd (ids, w)) @ evs \<and>
              saved evs = 0 * length fs + nested evs"
    by (rule forEach_events [where body = "processFile e rec schema", OF _ loop]) (erule step)
  then obtain evs where "trace w1 = trace w @ evs" "saved evs = nested evs"
    by auto
  with w' have "trace w' = trace w @ evs @ [RegistrySaved, LogIdsUpdated] \<and>
                saved evs = nested evs"
    by simp
  then show ?thesis by blast
qed

lemma generateFactory_events:
  "generateFactory n e p w = Some (Inr w') \<Longrightarrow>
   \<exists>evs. trace w' = trace w @ evs @ [RegistrySaved, LogIdsUpdated] \<and> saved evs = nested evs"
proof (induction n arbitrary: p w w')
  case 0
  then show ?case by simp
next
  case (Suc n)
  have rec: "\<exists>evs. trace w' = trace w @ evs \<and> saved evs = Suc (nested evs)"
    if "generateFactory n e p w = Some (Inr w')" for p w w'
  proof -
    from Suc.IH [OF that] obtain evs where
      "trace w' = trace w @ evs @ [RegistrySaved, LogIdsUpdated]" "saved evs = nested evs"
      by blast
    then have "trace w' = trace w @ (evs @ [RegistrySaved, LogIdsUpdated]) \<and>
               saved (evs @ [RegistrySaved, LogIdsUpdated]) =
                 Suc (nested (evs @ [RegistrySaved, LogIdsUpdated]))"
      by (simp add: saved_append nested_append)
    then show ?thesis by blast
  qed
  from Suc.prems have body: "generateFactory_body e (generateFactory n e) p w = Some (Inr w')"
    by simp
  show ?case
    by (rule generateFactory_body_events [where rec = "generateFactory n e", OF _ body])
       (erule rec)
qed

text \<open>
  C5, as the program has it. Every call of \<^verbatim>\<open>generateFactory\<close> that returns has
  saved the registry as its last effect but the closing log line, after the
  documents of that call; before that, the registry was saved once for every
  nested generation the call started, and no more. A run of \<^verbatim>\<open>main\<close> calls
  \<^verbatim>\<open>generateFactory\<close> once per document found, so it saves the registry once per
  document found and once more per nested generation.
\<close>

theorem registry_saved_per_invocation:
  "(generateFactory n e p w = Some (Inr w') \<longrightarrow>
      (\<exists>evs. trace w' = trace w @ evs @ [RegistrySaved, LogIdsUpdated] \<and>
             saved evs = nested evs)) \<and>
   (main k e v = Some (Inr v') \<longrightarrow>
      (\<exists>evs. trace v' = trace v @ evs \<and>
             saved evs =
               length (glob_sync e (files v) ''src/**/*/*.fragment.gql'') + nested evs))"
proof (intro conjI impI)
  assume "generateFactory n e p w = Some (Inr w')"
  then show "\<exists>evs. trace w' = trace w @ evs @ [RegistrySaved, LogIdsUpdated] \<and>
                   saved evs = nested evs"
    by (rule generateFactory_events)
next
  let ?ps = "glob_sync e (files v) ''src/**/*/*.fragment.gql''"
  let ?body = "\<lambda>fragmentPath w'. generateFactory k e fragmentPath
                 (w'\<lparr>trace := trace w' @ [LogGenerating fragmentPath]\<rparr>)"
  assume run: "main k e v = Some (Inr v')"
  show "\<exists>evs. trace v' = trace v @ evs \<and> saved evs = length ?ps + nested evs"
  proof (cases "?ps = []")
    case True
    with run have "trace v' = trace v @ [WarnNoFragments] \<and>
                   saved [WarnNoFragments] = length ?ps + nested [WarnNoFragments]"
      by (auto simp: main_def)
    then show ?thesis by blast
  next
    case False
    with run have loop: "forEach ?body ?ps v = Some (Inr v')"
      by (simp add: main_def)
    have step: "\<exists>evs. trace s' = trace s @ evs \<and> saved evs = 1 + nested evs"
      if "?body x s = Some (Inr s')" for x s s'
    proof -
      from generateFactory_events [OF that] obtain evs where
        "trace s' = (trace s @ [LogGenerating x]) @ evs @ [RegistrySaved, LogIdsUpdated]"
        "saved evs = nested evs"
        by auto
      then have
        "trace s' = trace s @ (LogGenerating x # evs @ [RegistrySaved, LogIdsUpdated]) \<and>
         saved (LogGenerating x # evs @ [RegistrySaved, LogIdsUpdated]) =
           1 + nested (LogGenerating x # evs @ [RegistrySaved, LogIdsUpdated])"
        by (simp add: saved_append nested_append)
      then show ?thesis by blast
    qed
    have "\<exists>evs. trace v' = trace v @ evs \<and> saved evs = 1 * length ?ps + nested evs"
      by (rule forEach_events [where body = ?body, OF _ loop]) (erule step)
    then show ?thesis
      by simp
  qed
qed

lemma post_pass_trace:
  "map_option (map_sum id trace) (generateFactory 2 env0 post_path post_world) =
   Some (Inr
     [LogNestedFactory ''UserInfo'',
      FileWritten ''src/gql/user-info/user-info.factory.ts'',
      LogGenerated ''createMockUserInfo'' ''src/gql/user-info/user-info.factory.ts'',
      RegistrySaved, LogIdsUpdated,
      FileWritten ''src/gql/post/post.factory.ts'',
      LogGenerated ''createMockPost'' ''src/gql/post/post.factory.ts'',
      RegistrySaved, LogIdsUpdated])"
  by code_simp

theorem registry_saved_per_invocation_witness:
  "(\<exists>w'. generateFactory 2 env0 post_path post_world = Some (Inr w') \<and>
         (\<exists>evs. trace w' = trace post_world @ evs @ [RegistrySaved, LogIdsUpdated] \<and>
                saved evs = nested evs)) \<and>
   (\<exists>v'. main 1 env0 (project [(me_path, me_text)]) = Some (Inr v') \<and>
          (\<exists>evs. trace v' = trace (project [(me_path, me_text)]) @ evs \<and>
                 saved evs =
                   length (glob_sync env0 (files (project [(me_path, me_text)]))
                             ''src/**/*/*.fragment.gql'') +
                   nested evs)) \<and>
   glob_sync env0 (files (project [(me_path, me_text)])) ''src/**/*/*.fragment.gql'' = [me_path]"
proof -
  from post_pass_trace obtain r where
    r: "generateFactory 2 env0 post_path post_world = Some r" and
    "map_sum id trace r =
       Inr [LogNestedFactory ''UserInfo'',
            FileWritten ''src/gql/user-info/user-info.factory.ts'',
            LogGenerated ''createMockUserInfo'' ''src/gql/user-info/user-info.factory.ts'',
            RegistrySaved, LogIdsUpdated,
            FileWritten ''src/gql/post/post.factory.ts'',
            LogGenerated ''createMockPost'' ''src/gql/post/post.factory.ts'',
            RegistrySaved, LogIdsUpdated]"
    by blast
  then obtain w' where g: "generateFactory 2 env0 post_path post_world = Some (Inr w')"
    by (cases r) auto
  have "case main 1 env0 (project [(me_path, me_text)]) of
          Some (Inr w') \<Rightarrow> True | _ \<Rightarrow> False"
    by code_simp
  then obtain v' where m: "main 1 env0 (project [(me_path, me_text)]) = Some (Inr v')"
    by (auto split: option.splits sum.splits)
  have found: "glob_sync env0 (files (project [(me_path, me_text)]))
                 ''src/**/*/*.fragment.gql'' = [me_path]"
    by code_simp
  from registry_saved_per_invocation
         [of 2 env0 post_path post_world w' 1 "project [(me_path, me_text)]" v'] g m found
  show ?thesis by simp
qed

text \<open>
  The claim C5 as stated fails: the pass over the document \<^verbatim>\<open>Post\<close> alone saves
  the registry twice, the first time in the nested generation for \<^verbatim>\<open>UserInfo\<close>,
  before the artifact of \<^verbatim>\<open>Post\<close> is written.
\<close>

theorem registry_saved_counterexample:
  "map_option (map_sum id trace) (generateFactory 2 env0 post_path post_world) =
   Some (Inr
     [LogNestedFactory ''UserInfo'',
      FileWritten ''src/gql/user-info/user-info.factory.ts'',
      LogGenerated ''createMockUserInfo'' ''src/gql/user-info/user-info.factory.ts'',
      RegistrySaved, LogIdsUpdated,
      FileWritten ''src/gql/post/post.factory.ts'',
      LogGenerated ''createMockPost'' ''src/gql/post/post.factory.ts'',
      RegistrySaved, LogIdsUpdated])"
  by (rule post_pass_trace)

subsection \<open>Fields and nested fragment names\<close>

lemma match_field_spread_Some:
  assumes "match_field_spread s = Some (f, g, rest)"
  shows "\<exists>s1 s2. s = f @ s1 @ ''{'' @ s2 @ ''...'' @ g @ rest \<and>
           f \<noteq> [] \<and> list_all is_word f \<and> list_all is_space s1 \<and> list_all is_space s2 \<and>
           g \<noteq> [] \<and> list_all is_word g \<and> (rest = [] \<or> \<not> is_word (hd rest))"
proof -
  let ?w = "dropWhile is_word s"
  let ?r1 = "dropWhile is_space ?w"
  from assms obtain r2 where
    f: "f = takeWhile is_word s" "f \<noteq> []" and
    r1: "?r1 = CHR ''{'' # r2" and
    dots: "prefix ''...'' (dropWhile is_space r2)" and
    g: "g = takeWhile is_word (drop 3 (dropWhile is_space r2))" "g \<noteq> []" and
    rest: "rest = dropWhile is_word (drop 3 (dropWhile is_space r2))"
    by (auto simp: match_field_spread_def Let_def split: list.splits if_splits)
  let ?s1 = "takeWhile is_space ?w"
  let ?s2 = "takeWhile is_space r2"
  let ?r3 = "dropWhile is_space r2"
  have all: "list_all P (takeWhile P xs)" for P and xs :: string
    by (simp add: list_all_iff) (meson set_takeWhileD)
  have "s = f @ ?w"
    by (simp add: f)
  also have "?w = ?s1 @ ?r1"
    by simp
  also have "?r1 = ''{'' @ r2"
    by (simp add: r1)
  also have "r2 = ?s2 @ ?r3"
    by simp
  also from dots have "?r3 = ''...'' @ drop 3 ?r3"
    by (auto simp: prefix_def)
  also have "drop 3 ?r3 = g @ rest"
    by (simp add: g rest)
  finally have "s = f @ ?s1 @ ''{'' @ ?s2 @ ''...'' @ g @ rest" .
  moreover have "rest = [] \<or> \<not> is_word (hd rest)"
    unfolding rest by (metis hd_dropWhile)
  ultimately show ?thesis
    using f g all [of is_word] all [of is_space] by blast
qed

lemma match_field_spread_extend:
  assumes "is_word c" and "match_field_spread cs = Some (f, g, rest)"
  shows "match_field_spread (c # cs) = Some (c # f, g, rest)"
proof -
  from assms(2) obtain r2 where
    "f = takeWhile is_word cs"
    "dropWhile is_space (dropWhile is_word cs) = CHR ''{'' # r2"
    "prefix ''...'' (dropWhile is_space r2)"
    "g = takeWhile is_word (drop 3 (dropWhile is_space r2))" "g \<noteq> []"
    "rest = dropWhile is_word (drop 3 (dropWhile is_space r2))"
    by (auto simp: match_field_spread_def Let_def split: list.splits if_splits)
  with assms(1) show ?thesis
    by (simp add: match_field_spread_def Let_def)
qed

lemma match_field_spread_inside_word:
  assumes "is_word c" and "match_field_spread (c # cs) = None"
  shows "match_field_spread cs = None"
proof (cases "match_field_spread cs")
  case None
  then show ?thesis .
next
  case (Some m)
  obtain f g rest where "m = (f, g, rest)"
    by (cases m)
  with Some match_field_spread_extend [OF assms(1), of cs f g rest] assms(2) show ?thesis
    by simp
qed

lemma match_field_spread_no_word:
  assumes "s = [] \<or> \<not> is_word (hd s)"
  shows "match_field_spread s = None"
  using assms by (cases s) (auto simp: match_field_spread_def Let_def)

lemma matchAll_field_spread_sound:
  assumes "(f, g) \<in> set (matchAll_field_spread s)"
    and "pre0 = [] \<or> \<not> is_word (last pre0) \<or> match_field_spread s = None"
  shows "\<exists>pre s1 s2 post.
           pre0 @ s = pre @ f @ s1 @ ''{'' @ s2 @ ''...'' @ g @ post \<and>
           (pre = [] \<or> \<not> is_word (last pre)) \<and>
           f \<noteq> [] \<and> list_all is_word f \<and> list_all is_space s1 \<and> list_all is_space s2 \<and>
           g \<noteq> [] \<and> list_all is_word g \<and> (post = [] \<or> \<not> is_word (hd post))"
  using assms
proof (induction s arbitrary: pre0 rule: matchAll_field_spread.induct)
  case 1
  then show ?case by simp
next
  case (2 c cs)
  show ?case
  proof (cases "match_field_spread (c # cs)")
    case None
    with "2.prems"(1) have mem: "(f, g) \<in> set (matchAll_field_spread cs)"
      by simp
    have "pre0 @ [c] = [] \<or> \<not> is_word (last (pre0 @ [c])) \<or> match_field_spread cs = None"
      using match_field_spread_inside_word [OF _ None] by auto
    from "2.IH"(1) [OF None mem this] show ?thesis
      by simp
  next
    case (Some m)
    obtain f' g' rest where m: "m = (f', g', rest)"
      by (cases m)
    from match_field_spread_Some [OF Some [unfolded m]] obtain s1 s2 where
      shape: "c # cs = f' @ s1 @ ''{'' @ s2 @ ''...'' @ g' @ rest" and
      ok: "f' \<noteq> []" "list_all is_word f'" "list_all is_space s1" "list_all is_space s2"
          "g' \<noteq> []" "list_all is_word g'" "rest = [] \<or> \<not> is_word (hd rest)"
      by blast
    from "2.prems"(1) Some m consider
      (here) "f = f'" "g = g'" | (later) "(f, g) \<in> set (matchAll_field_spread rest)"
      by auto
    then show ?thesis
    proof cases
      case here
      from "2.prems"(2) Some have "pre0 = [] \<or> \<not> is_word (last pre0)"
        by simp
      with shape ok here show ?thesis
        by blast
    next
      case later
      let ?pre = "pre0 @ f' @ s1 @ ''{'' @ s2 @ ''...'' @ g'"
      have "?pre = [] \<or> \<not> is_word (last ?pre) \<or> match_field_spread rest = None"
        using match_field_spread_no_word [OF ok(7)] by simp
      from "2.IH"(2) [OF Some [unfolded m] refl refl later this] shape
      show ?thesis
        by simp
    qed
  qed
qed

text \<open>
  C10, as the program has it. The association is made on the text of the whole
  document and is keyed by the field name. A name is associated with a fragment
  name only when the text holds that name as a whole word followed by white
  space, an opening brace, white space, the three dots and the fragment name,
  at any depth of nesting; nested resolution then searches for that fragment.
  When the lookup of the field name gives nothing, it searches for the base type
  name of the field.
\<close>

theorem field_fragment_association:
  "(get_property (getFieldFragmentMap content) f = OwnString g \<longrightarrow>
      (\<exists>pre s1 s2 post.
         content = pre @ f @ s1 @ ''{'' @ s2 @ ''...'' @ g @ post \<and>
         (pre = [] \<or> \<not> is_word (last pre)) \<and>
         f \<noteq> [] \<and> list_all is_word f \<and> list_all is_space s1 \<and> list_all is_space s2 \<and>
         g \<noteq> [] \<and> list_all is_word g \<and> (post = [] \<or> \<not> is_word (hd post))) \<and>
      fragmentToSearch (getFieldFragmentMap content) f base = Inr (toPascalCase g)) \<and>
   (get_property (getFieldFragmentMap content) f = Undefined \<longrightarrow>
      fragmentToSearch (getFieldFragmentMap content) f base = Inr (toPascalCase base))"
proof (intro conjI impI)
  assume own: "get_property (getFieldFragmentMap content) f = OwnString g"
  then have "map_of (rev (getFieldFragmentMap content)) f = Some g"
    by (auto simp: get_property_def split: option.splits if_splits)
  then have mem: "(f, g) \<in> set (matchAll_field_spread content)"
    by (auto simp: getFieldFragmentMap_def dest: map_of_SomeD)
  from matchAll_field_spread_sound [OF mem, of "[]"]
  show occ: "\<exists>pre s1 s2 post.
         content = pre @ f @ s1 @ ''{'' @ s2 @ ''...'' @ g @ post \<and>
         (pre = [] \<or> \<not> is_word (last pre)) \<and>
         f \<noteq> [] \<and> list_all is_word f \<and> list_all is_space s1 \<and> list_all is_space s2 \<and>
         g \<noteq> [] \<and> list_all is_word g \<and> (post = [] \<or> \<not> is_word (hd post))"
    by simp
  then have "g \<noteq> []"
    by blast
  with own show "fragmentToSearch (getFieldFragmentMap content) f base = Inr (toPascalCase g)"
    by (simp add: fragmentToSearch_def)
next
  assume "get_property (getFieldFragmentMap content) f = Undefined"
  then show "fragmentToSearch (getFieldFragmentMap content) f base = Inr (toPascalCase base)"
    by (simp add: fragmentToSearch_def)
qed

theorem field_fragment_association_witness:
  "get_property (getFieldFragmentMap post_text) ''author'' = OwnString ''UserInfo'' \<and>
   (\<exists>pre s1 s2 post.
      post_text = pre @ ''author'' @ s1 @ ''{'' @ s2 @ ''...'' @ ''UserInfo'' @ post \<and>
      (pre = [] \<or> \<not> is_word (last pre)) \<and>
      list_all is_space s1 \<and> list_all is_space s2 \<and>
      (post = [] \<or> \<not> is_word (hd post))) \<and>
   fragmentToSearch (getFieldFragmentMap post_text) ''author'' ''User'' = Inr ''UserInfo'' \<and>
   get_property (getFieldFragmentMap post_text) ''comments'' = Undefined \<and>
   fragmentToSearch (getFieldFragmentMap post_text) ''comments'' ''Comment'' = Inr ''Comment''"
proof -
  have own: "get_property (getFieldFragmentMap post_text) ''author'' = OwnString ''UserInfo''"
    by code_simp
  have none: "get_property (getFieldFragmentMap post_text) ''comments'' = Undefined"
    by code_simp
  have pascal: "toPascalCase ''UserInfo'' = ''UserInfo''" "toPascalCase ''Comment'' = ''Comment''"
    by code_simp+
  from field_fragment_association [of post_text "''author''" "''UserInfo''" "''User''"]
    field_fragment_association [of post_text "''comments''" "''UserInfo''" "''Comment''"]
    own none pascal
  show ?thesis by auto
qed

text \<open>
  The claim C10 as stated fails: in the fragment \<^verbatim>\<open>Post\<close> the sub-selection of the
  selected field \<^verbatim>\<open>author\<close> begins with the plain field \<^verbatim>\<open>id\<close>, yet the name
  \<^verbatim>\<open>author\<close> is associated with \<^verbatim>\<open>UserInfo\<close>, from the field of the same name
  under \<^verbatim>\<open>comments\<close>, and nested resolution searches for \<^verbatim>\<open>UserInfo\<close> instead of
  the base type name \<^verbatim>\<open>User\<close>.
\<close>

theorem field_fragment_association_counterexample:
  "map_option selections (find_fragment (the (gql_parse env0 post_text))) =
     Some [FieldNode ''author'' [FieldNode ''id'' []],
           FieldNode ''comments'' [FieldNode ''author'' [FragmentSpreadNode ''UserInfo'']]] \<and>
   map_of (td_fields (the (map_of blog_schema ''Post''))) ''author'' =
     Some (Named ObjectType ''User'') \<and>
   getFieldFragmentMap post_text = [(''author'', ''UserInfo'')] \<and>
   fragmentToSearch (getFieldFragmentMap post_text) ''author'' ''User'' = Inr ''UserInfo''"
  by code_simp

text \<open>
  A field named like a member of \<^verbatim>\<open>Object.prototype\<close> is another matter: the
  lookup gives the inherited member, which is no string, and its case conversion
  throws.
\<close>

lemma inherited_member_throws:
  "fragmentToSearch (getFieldFragmentMap ''fragment Race on Race { constructor { id } }'')
     ''constructor'' ''Constructor'' = Inl TypeError"
  by code_simp

subsection \<open>Nested generation and termination\<close>

lemma set_map_filter: "set (List.map_filter f xs) = {y. \<exists>x \<in> set xs. f x = Some y}"
  by (induction xs) (auto split: option.splits)

lemma apart_join:
  "artifacts_apart e \<Longrightarrow> suffix ''.factory.ts'' (path_join e dir (base @ ''.factory.ts''))"
  unfolding artifacts_apart_def by blast

lemma apart_found:
  "artifacts_apart e \<Longrightarrow>
   glob_sync e fs (''src/**/*/'' @ toKebabCase s @ ''.fragment.gql'') = p # others \<Longrightarrow>
   suffix ''.fragment.gql'' p"
  unfolding artifacts_apart_def by (metis list.set_intros(1))

lemma apart_write:
  "artifacts_apart e \<Longrightarrow> suffix ''.factory.ts'' p \<Longrightarrow>
   glob_sync e (writeFileSync p c fs) (''src/**/*/'' @ toKebabCase s @ ''.fragment.gql'') =
   glob_sync e fs (''src/**/*/'' @ toKebabCase s @ ''.fragment.gql'')"
  unfolding artifacts_apart_def by blast

lemma grown_found:
  "grown e fs fs' \<Longrightarrow>
   glob_sync e fs' (''src/**/*/'' @ toKebabCase s @ ''.fragment.gql'') =
   glob_sync e fs (''src/**/*/'' @ toKebabCase s @ ''.fragment.gql'')"
  unfolding grown_def by blast

lemma map_of_writeFileSync:
  "map_of (writeFileSync p c fs) q = (if q = p then Some c else map_of fs q)"
  by (induction fs) auto

lemma grown_refl: "grown e fs fs"
  by (simp add: grown_def)

lemma grown_trans: "grown e fs fs' \<Longrightarrow> grown e fs' fs'' \<Longrightarrow> grown e fs fs''"
  by (simp add: grown_def)

lemma grown_write:
  assumes "artifacts_apart e" and "suffix ''.factory.ts'' p"
  shows "grown e fs (writeFileSync p c fs)"
  unfolding grown_def
  using apart_write [OF assms]
  by (auto simp: existsSync_def map_of_writeFileSync assms(2))

lemma suffixes_apart:
  assumes "suffix ''.fragment.gql'' p"
  shows "\<not> suffix ''.factory.ts'' p"
proof
  assume "suffix ''.factory.ts'' p"
  with assms obtain xs ys where "p = xs @ ''.fragment.gql''" "p = ys @ ''.factory.ts''"
    by (auto simp: suffix_def)
  then have "last (xs @ ''.fragment.gql'') = last (ys @ ''.factory.ts'')"
    by simp
  then show False
    by simp
qed

lemma descent_found:
  assumes "artifacts_apart e" and "descent e fs m ty sel = Some p"
  shows "suffix ''.fragment.gql'' p \<and> p \<noteq> []"
proof -
  from assms(2) obtain s others where
    "glob_sync e fs (''src/**/*/'' @ toKebabCase s @ ''.fragment.gql'') = p # others" "p \<noteq> []"
    by (auto simp: descent_def
             split: selection.splits sum.splits option.splits list.splits if_splits)
  with apart_found [OF assms(1)] show ?thesis
    by blast
qed

lemma extractFragmentName_grown:
  assumes "grown e fs fs'" and "\<not> suffix ''.factory.ts'' p"
  shows "extractFragmentName fs' p = extractFragmentName fs p"
  using assms by (simp add: grown_def extractFragmentName_def)

lemma descent_grown:
  assumes apart: "artifacts_apart e" and gr: "grown e fs fs'"
    and d: "descent e fs' m ty sel = Some p"
  shows "descent e fs m ty sel = Some p"
proof -
  from d obtain fieldName sub fds ftype toSearch others name where
    sel: "sel = FieldNode fieldName sub" and
    f: "getFields ty = Inr fds" "map_of fds fieldName = Some ftype"
       "\<not> (fieldName = ''id'' \<or> isScalar (unwrapType ftype) \<or> isEnum (unwrapType ftype))"
       "fragmentToSearch m fieldName (snd (unwrapType ftype)) = Inr toSearch" and
    g: "glob_sync e fs' (''src/**/*/'' @ toKebabCase toSearch @ ''.fragment.gql'') = p # others" and
    p: "p \<noteq> []" and
    x: "extractFragmentName fs' p = Inr name" and
    n: "\<not> existsSync fs' (replace_first ''.fragment.gql'' ''.factory.ts'' p)"
    by (auto simp: descent_def
             split: selection.splits sum.splits option.splits list.splits if_splits)
  from g have g': "glob_sync e fs (''src/**/*/'' @ toKebabCase toSearch @ ''.fragment.gql'') =
                     p # others"
    using grown_found [OF gr, of toSearch] by simp
  from apart_found [OF apart g'] have "suffix ''.fragment.gql'' p" .
  then have "\<not> suffix ''.factory.ts'' p"
    by (rule suffixes_apart)
  with gr x have x': "extractFragmentName fs p = Inr name"
    by (simp add: extractFragmentName_grown)
  from gr n have n': "\<not> existsSync fs (replace_first ''.fragment.gql'' ''.factory.ts'' p)"
    by (auto simp: grown_def)
  from sel f g' p x' n' show ?thesis
    by (simp add: descent_def)
qed

lemma descents_iff:
  "p \<in> set (descents e schema fs filePath) \<longleftrightarrow>
   (\<exists>content ast fragment ty sel.
      map_of fs filePath = Some content \<and> gql_parse e content = Some ast \<and>
      find_fragment ast = Some fragment \<and> map_of schema (typeCondition fragment) = Some ty \<and>
      sel \<in> set (selections fragment) \<and>
      descent e fs (getFieldFragmentMap content) ty sel = Some p)"
proof (cases "map_of fs filePath")
  case None
  then show ?thesis by (simp add: descents_def)
next
  case content: (Some content)
  show ?thesis
  proof (cases "gql_parse e content")
    case None
    with content show ?thesis by (simp add: descents_def)
  next
    case ast: (Some ast)
    show ?thesis
    proof (cases "find_fragment ast")
      case None
      with content ast show ?thesis by (simp add: descents_def)
    next
      case fragment: (Some fragment)
      show ?thesis
      proof (cases "map_of schema (typeCondition fragment)")
        case None
        with content ast fragment show ?thesis by (simp add: descents_def)
      next
        case (Some ty)
        with content ast fragment show ?thesis
          by (auto simp: descents_def set_map_filter)
      qed
    qed
  qed
qed

lemma descents_found:
  assumes "artifacts_apart e" and "p \<in> set (descents e schema fs filePath)"
  shows "suffix ''.fragment.gql'' p \<and> p \<noteq> []"
proof -
  from assms(2) obtain m ty sel where "descent e fs m ty sel = Some p"
    by (auto simp: descents_iff)
  with assms(1) show ?thesis
    by (rule descent_found)
qed

lemma descents_grown:
  assumes apart: "artifacts_apart e" and gr: "grown e fs fs'"
    and path: "\<not> suffix ''.factory.ts'' filePath"
  shows "set (descents e schema fs' filePath) \<subseteq> set (descents e schema fs filePath)"
proof
  fix p
  assume "p \<in> set (descents e schema fs' filePath)"
  then obtain content ast fragment ty sel where
    c: "map_of fs' filePath = Some content" "gql_parse e content = Some ast"
       "find_fragment ast = Some fragment" "map_of schema (typeCondition fragment) = Some ty" and
    s: "sel \<in> set (selections fragment)" and
    d: "descent e fs' (getFieldFragmentMap content) ty sel = Some p"
    by (auto simp: descents_iff)
  from gr path c(1) have "map_of fs filePath = Some content"
    by (simp add: grown_def)
  moreover from descent_grown [OF apart gr d]
  have "descent e fs (getFieldFragmentMap content) ty sel = Some p" .
  ultimately show "p \<in> set (descents e schema fs filePath)"
    using c(2-4) s by (auto simp: descents_iff)
qed

lemma descends_within_grown:
  assumes apart: "artifacts_apart e" and gr: "grown e fs fs'"
  shows "descends_within n e schema fs filePath \<Longrightarrow> \<not> suffix ''.factory.ts'' filePath \<Longrightarrow>
         descends_within n e schema fs' filePath"
proof (induction n arbitrary: filePath)
  case 0
  with descents_grown [OF apart gr, of filePath schema] show ?case
    by simp
next
  case (Suc n)
  have "descends_within n e schema fs' p" if "p \<in> set (descents e schema fs' filePath)" for p
  proof -
    from that descents_grown [OF apart gr Suc.prems(2), of schema]
    have p: "p \<in> set (descents e schema fs filePath)"
      by blast
    with Suc.prems(1) have "descends_within n e schema fs p"
      by (simp add: list_all_iff)
    moreover from descents_found [OF apart p] have "\<not> suffix ''.factory.ts'' p"
      by (simp add: suffixes_apart)
    ultimately show ?thesis
      by (rule Suc.IH)
  qed
  then show ?case
    by (simp add: list_all_iff)
qed

lemma settled_throw: "settled e schema fs proj (Some (Inl err))"
  by (simp add: settled_def)

lemma settled_return:
  "grown e fs (files (proj s')) \<Longrightarrow> schema_store (proj s') = Some schema \<Longrightarrow>
   settled e schema fs proj (Some (Inr s'))"
  by (simp add: settled_def)

lemma forEach_settled:
  assumes mono: "\<And>x fs fs'. Q fs x \<Longrightarrow> grown e fs fs' \<Longrightarrow> Q fs' x"
    and step: "\<And>x s. Q (files (proj s)) x \<Longrightarrow> schema_store (proj s) = Some schema \<Longrightarrow>
                 settled e schema (files (proj s)) proj (body x s)"
  shows "list_all (Q (files (proj s))) xs \<Longrightarrow> schema_store (proj s) = Some schema \<Longrightarrow>
         settled e schema (files (proj s)) proj (forEach body xs s)"
proof (induction xs arbitrary: s)
  case Nil
  then show ?case
    by (simp add: settled_def grown_refl)
next
  case (Cons x xs)
  from Cons.prems have first: "Q (files (proj s)) x"
    and others: "list_all (Q (files (proj s))) xs"
    by simp_all
  from step [OF first Cons.prems(2)] obtain r where
    r: "body x s = Some r" and
    after: "\<And>s'. r = Inr s' \<Longrightarrow>
              grown e (files (proj s)) (files (proj s')) \<and> schema_store (proj s') = Some schema"
    by (auto simp: settled_def)
  show ?case
  proof (cases r)
    case (Inl err)
    with r show ?thesis
      by (simp add: settled_def)
  next
    case (Inr s1)
    from after [OF Inr] have g1: "grown e (files (proj s)) (files (proj s1))"
      and s1: "schema_store (proj s1) = Some schema"
      by simp_all
    from others mono g1 have "list_all (Q (files (proj s1))) xs"
      by (auto simp: list_all_iff)
    from Cons.IH [OF this s1] obtain r2 where
      r2: "forEach body xs s1 = Some r2" and
      after2: "\<And>s'. r2 = Inr s' \<Longrightarrow>
                 grown e (files (proj s1)) (files (proj s')) \<and> schema_store (proj s') = Some schema"
      by (auto simp: settled_def)
    from r Inr r2 have "forEach body (x # xs) s = Some r2"
      by simp
    moreover have "grown e (files (proj s)) (files (proj s')) \<and> schema_store (proj s') = Some schema"
      if "r2 = Inr s'" for s'
      using after2 [OF that] g1 by (auto intro: grown_trans)
    ultimately show ?thesis
      by (auto simp: settled_def)
  qed
qed

lemma descent_cases:
  assumes "descent e fs m ty sel = Some p"
  obtains fieldName sub fds ftype toSearch others name where
    "sel = FieldNode fieldName sub" "getFields ty = Inr fds" "map_of fds fieldName = Some ftype"
    "fieldName \<noteq> ''id''" "\<not> isScalar (unwrapType ftype)" "\<not> isEnum (unwrapType ftype)"
    "fragmentToSearch m fieldName (snd (unwrapType ftype)) = Inr toSearch"
    "glob_sync e fs (''src/**/*/'' @ toKebabCase toSearch @ ''.fragment.gql'') = p # others"
    "p \<noteq> []" "extractFragmentName fs p = Inr name"
    "\<not> existsSync fs (replace_first ''.fragment.gql'' ''.factory.ts'' p)"
  using assms
  by (auto simp: descent_def
           split: selection.splits sum.splits option.splits list.splits if_splits)

lemma nestedField_shallow_world:
  assumes "nestedField e rec dir m fieldName ftype (g, w) = Some (Inr (g', w'))"
    and "\<And>toSearch p others name.
           fragmentToSearch m fieldName (snd (unwrapType ftype)) = Inr toSearch \<Longrightarrow>
           glob_sync e (files w) (''src/**/*/'' @ toKebabCase toSearch @ ''.fragment.gql'') =
             p # others \<Longrightarrow>
           p \<noteq> [] \<Longrightarrow> extractFragmentName (files w) p = Inr name \<Longrightarrow>
           existsSync (files w) (replace_first ''.fragment.gql'' ''.factory.ts'' p)"
  shows "w' = w"
proof (cases "fragmentToSearch m fieldName (snd (unwrapType ftype))")
  case (Inl err)
  with assms(1) show ?thesis
    by (simp add: nestedField_def)
next
  case (Inr toSearch)
  show ?thesis
  proof (cases "glob_sync e (files w) (''src/**/*/'' @ toKebabCase toSearch @ ''.fragment.gql'')")
    case Nil
    with Inr assms(1) show ?thesis
      by (simp add: nestedField_def)
  next
    case (Cons p others)
    show ?thesis
    proof (cases "p = []")
      case True
      with Inr Cons assms(1) show ?thesis
        by (simp add: nestedField_def)
    next
      case False
      show ?thesis
      proof (cases "extractFragmentName (files w) p")
        case (Inl err)
        with Inr Cons False assms(1) show ?thesis
          by (simp add: nestedField_def)
      next
        case name: (Inr name)
        from assms(2) [OF Inr Cons False name]
        have "existsSync (files w) (replace_first ''.fragment.gql'' ''.factory.ts'' p)" .
        with Inr Cons False name assms(1) show ?thesis
          by (simp add: nestedField_def Let_def)
      qed
    qed
  qed
qed

lemma nestedField_total_when_shallow:
  assumes "\<And>toSearch p others name.
           fragmentToSearch m fieldName (snd (unwrapType ftype)) = Inr toSearch \<Longrightarrow>
           glob_sync e (files w) (''src/**/*/'' @ toKebabCase toSearch @ ''.fragment.gql'') =
             p # others \<Longrightarrow>
           p \<noteq> [] \<Longrightarrow> extractFragmentName (files w) p = Inr name \<Longrightarrow>
           existsSync (files w) (replace_first ''.fragment.gql'' ''.factory.ts'' p)"
  shows "\<exists>r. nestedField e rec dir m fieldName ftype (g, w) = Some r"
proof (cases "fragmentToSearch m fieldName (snd (unwrapType ftype))")
  case (Inl err)
  then show ?thesis
    by (simp add: nestedField_def)
next
  case (Inr toSearch)
  show ?thesis
  proof (cases "glob_sync e (files w) (''src/**/*/'' @ toKebabCase toSearch @ ''.fragment.gql'')")
    case Nil
    with Inr show ?thesis
      by (simp add: nestedField_def)
  next
    case (Cons p others)
    show ?thesis
    proof (cases "p = []")
      case True
      with Inr Cons show ?thesis
        by (simp add: nestedField_def)
    next
      case False
      show ?thesis
      proof (cases "extractFragmentName (files w) p")
        case (Inl err)
        with Inr Cons False show ?thesis
          by (simp add: nestedField_def)
      next
        case name: (Inr name)
        from assms [OF Inr Cons False name]
        have "existsSync (files w) (replace_first ''.fragment.gql'' ''.factory.ts'' p)" .
        with Inr Cons False name show ?thesis
          by (simp add: nestedField_def Let_def)
      qed
    qed
  qed
qed

lemma processSelection_shallow:
  assumes "descent e (files w) m ty sel = None"
  shows "\<exists>r. processSelection e rec ty tyName dir idsPath m sel (g, w) = Some r \<and>
             (\<forall>g' w'. r = Inr (g', w') \<longrightarrow>
                files w' = files w \<and> schema_store w' = schema_store w)"
proof (cases sel)
  case (FieldNode fieldName sub)
  show ?thesis
  proof (cases "getFields ty")
    case (Inl err)
    with FieldNode show ?thesis
      by (simp add: processSelection_def)
  next
    case (Inr fds)
    show ?thesis
    proof (cases "map_of fds fieldName")
      case None
      with FieldNode Inr show ?thesis
        by (simp add: processSelection_def)
    next
      case (Some ftype)
      show ?thesis
      proof (cases "fieldName = ''id'' \<or> isScalar (unwrapType ftype) \<or> isEnum (unwrapType ftype)")
        case True
        with FieldNode Inr Some show ?thesis
          by (auto simp: processSelection_def scalarField_def enumField_def split: prod.splits)
      next
        case False
        have shallow: "existsSync (files w) (replace_first ''.fragment.gql'' ''.factory.ts'' p)"
          if "fragmentToSearch m fieldName (snd (unwrapType ftype)) = Inr toSearch"
            "glob_sync e (files w) (''src/**/*/'' @ toKebabCase toSearch @ ''.fragment.gql'') =
               p # others"
            "p \<noteq> []" "extractFragmentName (files w) p = Inr name"
          for toSearch p others name
          using assms FieldNode Inr Some False that
          by (simp add: descent_def split: if_splits)
        from nestedField_total_when_shallow [of m fieldName ftype e w rec dir g] shallow
        obtain r where r: "nestedField e rec dir m fieldName ftype (g, w) = Some r"
          by blast
        have "w' = w" if "r = Inr (g', w')" for g' w'
          using nestedField_shallow_world [of e rec dir m fieldName ftype g w g' w'] r that shallow
          by blast
        with r FieldNode Inr Some False show ?thesis
          by (auto simp: processSelection_def)
      qed
    qed
  qed
next
  case (FragmentSpreadNode n)
  then show ?thesis
    by (simp add: processSelection_def)
next
  case (InlineFragmentNode sub)
  then show ?thesis
    by (simp add: processSelection_def)
qed

lemma processSelection_descends:
  assumes "descent e (files w) m ty sel = Some p"
  shows "\<exists>toSearch g1.
           processSelection e rec ty tyName dir idsPath m sel (g, w) =
             (case rec p (w\<lparr>trace := trace w @ [LogNestedFactory toSearch]\<rparr>) of
                None \<Rightarrow> None
              | Some (Inl err) \<Rightarrow> Some (Inl err)
              | Some (Inr w') \<Rightarrow> Some (Inr (g1, w')))"
proof -
  from assms obtain fieldName sub fds ftype toSearch others name where
    f: "sel = FieldNode fieldName sub" "getFields ty = Inr fds" "map_of fds fieldName = Some ftype"
       "fieldName \<noteq> ''id''" "\<not> isScalar (unwrapType ftype)" "\<not> isEnum (unwrapType ftype)"
       "fragmentToSearch m fieldName (snd (unwrapType ftype)) = Inr toSearch"
       "glob_sync e (files w) (''src/**/*/'' @ toKebabCase toSearch @ ''.fragment.gql'') =
          p # others"
       "p \<noteq> []" "extractFragmentName (files w) p = Inr name"
       "\<not> existsSync (files w) (replace_first ''.fragment.gql'' ''.factory.ts'' p)"
    by (rule descent_cases)
  let ?v = "w\<lparr>trace := trace w @ [LogNestedFactory toSearch]\<rparr>"
  show ?thesis
  proof (cases "rec p ?v")
    case None
    with f have "processSelection e rec ty tyName dir idsPath m sel (g, w) =
                   (case rec p ?v of None \<Rightarrow> None | Some (Inl err) \<Rightarrow> Some (Inl err)
                    | Some (Inr w') \<Rightarrow> Some (Inr (g, w')))"
      by (simp add: processSelection_def nestedField_def Let_def)
    then show ?thesis by blast
  next
    case (Some r)
    show ?thesis
    proof (cases r)
      case (Inl err)
      with Some f have "processSelection e rec ty tyName dir idsPath m sel (g, w) =
                   (case rec p ?v of None \<Rightarrow> None | Some (Inl err) \<Rightarrow> Some (Inl err)
                    | Some (Inr w') \<Rightarrow> Some (Inr (g, w')))"
        by (simp add: processSelection_def nestedField_def Let_def)
      then show ?thesis by blast
    next
      case (Inr w')
      with Some f obtain g1 where
        "processSelection e rec ty tyName dir idsPath m sel (g, w) = Some (Inr (g1, w'))"
        by (simp add: processSelection_def nestedField_def Let_def)
      with Some Inr have "processSelection e rec ty tyName dir idsPath m sel (g, w) =
                   (case rec p ?v of None \<Rightarrow> None | Some (Inl err) \<Rightarrow> Some (Inl err)
                    | Some (Inr w') \<Rightarrow> Some (Inr (g1, w')))"
        by simp
      then show ?thesis by blast
    qed
  qed
qed

lemma processSelection_settled:
  assumes apart: "artifacts_apart e"
    and rec: "\<And>p v. D (files v) p \<Longrightarrow> p \<noteq> [] \<Longrightarrow> schema_store v = Some schema \<Longrightarrow>
                settled e schema (files v) (\<lambda>v'. v') (rec p v)"
    and q: "case descent e (files w) m ty sel of None \<Rightarrow> True | Some p \<Rightarrow> D (files w) p"
    and s: "schema_store w = Some schema"
  shows "settled e schema (files w) snd (processSelection e rec ty tyName dir idsPath m sel (g, w))"
proof (cases "descent e (files w) m ty sel")
  case None
  from processSelection_shallow [OF None, of rec tyName dir idsPath g] obtain r where
    r: "processSelection e rec ty tyName dir idsPath m sel (g, w) = Some r" and
    same: "\<And>g' w'. r = Inr (g', w') \<Longrightarrow> files w' = files w \<and> schema_store w' = schema_store w"
    by blast
  have "grown e (files w) (files (snd s')) \<and> schema_store (snd s') = Some schema"
    if "r = Inr s'" for s'
    using same [of "fst s'" "snd s'"] that s by (simp add: grown_refl)
  with r show ?thesis
    unfolding settled_def by blast
next
  case (Some p)
  from descent_found [OF apart Some] have p: "p \<noteq> []"
    by simp
  from q Some have d: "D (files w) p"
    by simp
  from processSelection_descends [OF Some, of rec tyName dir idsPath g] obtain toSearch g1 where
    run: "processSelection e rec ty tyName dir idsPath m sel (g, w) =
            (case rec p (w\<lparr>trace := trace w @ [LogNestedFactory toSearch]\<rparr>) of
               None \<Rightarrow> None
             | Some (Inl err) \<Rightarrow> Some (Inl err)
             | Some (Inr w') \<Rightarrow> Some (Inr (g1, w')))"
    by blast
  let ?v = "w\<lparr>trace := trace w @ [LogNestedFactory toSearch]\<rparr>"
  have "settled e schema (files ?v) (\<lambda>v'. v') (rec p ?v)"
    by (rule rec) (use d p s in simp_all)
  then obtain r where r: "rec p ?v = Some r" and
    after: "\<And>v'. r = Inr v' \<Longrightarrow> grown e (files w) (files v') \<and> schema_store v' = Some schema"
    unfolding settled_def by auto
  show ?thesis
  proof (cases r)
    case (Inl err)
    with run r have "processSelection e rec ty tyName dir idsPath m sel (g, w) = Some (Inl err)"
      by simp
    then show ?thesis
      by (simp add: settled_throw)
  next
    case (Inr v')
    with run r have "processSelection e rec ty tyName dir idsPath m sel (g, w) = Some (Inr (g1, v'))"
      by simp
    moreover from after [OF Inr] have "grown e (files w) (files (snd (g1, v')))"
      "schema_store (snd (g1, v')) = Some schema"
      by simp_all
    ultimately show ?thesis
      by (simp only: settled_return)
  qed
qed

lemma selection_loop_settled:
  assumes apart: "artifacts_apart e"
    and rec: "\<And>p v. D (files v) p \<Longrightarrow> p \<noteq> [] \<Longrightarrow> schema_store v = Some schema \<Longrightarrow>
                settled e schema (files v) (\<lambda>v'. v') (rec p v)"
    and mono: "\<And>fs fs' p. D fs p \<Longrightarrow> grown e fs fs' \<Longrightarrow> suffix ''.fragment.gql'' p \<Longrightarrow> D fs' p"
    and ds: "list_all (D (files w)) (List.map_filter (descent e (files w) m ty) sels)"
    and s: "schema_store w = Some schema"
  shows "settled e schema (files w) snd
           (forEach (processSelection e rec ty tyName dir idsPath m) sels (g, w))"
proof -
  let ?Q = "\<lambda>fs sel. case descent e fs m ty sel of None \<Rightarrow> True | Some p \<Rightarrow> D fs p"
  have qmono: "?Q fs' sel" if "?Q fs sel" "grown e fs fs'" for fs fs' sel
  proof (cases "descent e fs' m ty sel")
    case None
    then show ?thesis by simp
  next
    case (Some p)
    from descent_grown [OF apart that(2) Some] have d: "descent e fs m ty sel = Some p" .
    with that(1) have "D fs p" by simp
    moreover from descent_found [OF apart d] have "suffix ''.fragment.gql'' p" by simp
    ultimately have "D fs' p" using that(2) by (blast intro: mono)
    with Some show ?thesis by simp
  qed
  have step: "settled e schema (files (snd st)) snd
                (processSelection e rec ty tyName dir idsPath m sel st)"
    if "?Q (files (snd st)) sel" "schema_store (snd st) = Some schema" for sel st
    using processSelection_settled [where D = D and rec = rec, OF apart _ that(1) that(2),
            of tyName dir idsPath "fst st"] rec
    by simp
  from ds have "list_all (?Q (files (snd (g, w)))) sels"
    by (auto simp: list_all_iff set_map_filter split: option.splits)
  moreover from s have "schema_store (snd (g, w)) = Some schema"
    by simp
  ultimately have "settled e schema (files (snd (g, w))) snd
                     (forEach (processSelection e rec ty tyName dir idsPath m) sels (g, w))"
    by (rule forEach_settled [where Q = ?Q and proj = snd, rotated 2]) (blast intro: qmono step)+
  then show ?thesis
    by simp
qed

lemma documentFields_settled:
  assumes "settled e schema fs snd
             (forEach (processSelection e rec ty tyName dir idsPath m) sels (g, w))"
  shows "settled e schema fs snd
           (documentFields e rec ty tyName dir idsPath m spreads sels (g, w))"
  using assms
  by (auto simp: settled_def documentFields_def Let_def split: sum.splits)

lemma processFile_settled:
  assumes apart: "artifacts_apart e"
    and rec: "\<And>p v. D (files v) p \<Longrightarrow> p \<noteq> [] \<Longrightarrow> schema_store v = Some schema \<Longrightarrow>
                settled e schema (files v) (\<lambda>v'. v') (rec p v)"
    and mono: "\<And>fs fs' p. D fs p \<Longrightarrow> grown e fs fs' \<Longrightarrow> suffix ''.fragment.gql'' p \<Longrightarrow> D fs' p"
    and ds: "list_all (D (files w)) (descents e schema (files w) filePath)"
    and s: "schema_store w = Some schema"
  shows "settled e schema (files w) snd (processFile e rec schema filePath (ids, w))"
proof (cases "map_of (files w) filePath")
  case None
  then show ?thesis
    by (simp add: processFile_def settled_throw)
next
  case content: (Some content)
  show ?thesis
  proof (cases "gql_parse e content")
    case None
    with content show ?thesis
      by (simp add: processFile_def settled_throw)
  next
    case ast: (Some ast)
    show ?thesis
    proof (cases "find_fragment ast")
      case None
      with content ast s show ?thesis
        by (simp add: processFile_def settled_def grown_refl)
    next
      case fragment: (Some fragment)
      show ?thesis
      proof (cases "map_of schema (typeCondition fragment)")
        case None
        with content ast fragment s show ?thesis
          by (simp add: processFile_def settled_def grown_refl)
      next
        case ty: (Some ty)
        from ast have spreads: "getTopLevelFragmentSpreads e content = Inr (topLevelSpreads ast)"
          by (simp add: getTopLevelFragmentSpreads_def)
        let ?dir = "path_dirname e filePath"
        let ?g0 = \<open>\<lparr>g_ids = ids,
                    g_imports = [''import { '' @ frag_name fragment @ ''Fragment } from "./'' @
                                 toKebabCase (frag_name fragment) @ ''.fragment.generated";''],
                    g_nestedImports = [], g_fields = []\<rparr>\<close>
        let ?doc = "documentFields e rec ty (typeCondition fragment) ?dir
                      (toRelativeImport e ?dir (IDS_PATH e)) (getFieldFragmentMap content)
                      (topLevelSpreads ast) (selections fragment) (?g0, w)"
        from ds content ast fragment ty
        have sels: "list_all (D (files w))
                (List.map_filter (descent e (files w) (getFieldFragmentMap content) ty)
                   (selections fragment))"
          by (simp add: descents_def)
        have "settled e schema (files w) snd
                (forEach (processSelection e rec ty (typeCondition fragment) ?dir
                            (toRelativeImport e ?dir (IDS_PATH e)) (getFieldFragmentMap content))
                   (selections fragment) (?g0, w))"
          by (rule selection_loop_settled [where D = D and rec = rec, OF apart _ _ sels s])
             (rule rec mono; assumption)+
        then have "settled e schema (files w) snd ?doc"
          by (rule documentFields_settled)
        then obtain r where r: "?doc = Some r" and
          after: "\<And>s'. r = Inr s' \<Longrightarrow>
                    grown e (files w) (files (snd s')) \<and> schema_store (snd s') = Some schema"
          unfolding settled_def by blast
        show ?thesis
        proof (cases r)
          case (Inl err)
          with r content ast fragment ty spreads show ?thesis
            by (simp add: processFile_def Let_def settled_throw)
        next
          case (Inr gw)
          obtain g1 w1 where gw: "gw = (g1, w1)" by (cases gw)
          from after [OF Inr] gw have g1: "grown e (files w) (files w1)"
            and s1: "schema_store w1 = Some schema"
            by simp_all
          let ?path = "path_join e ?dir (toKebabCase (frag_name fragment) @ ''.factory.ts'')"
          have "grown e (files w1)
                  (writeFileSync ?path (fileContent (frag_name fragment) g1) (files w1))"
            by (rule grown_write [OF apart apart_join [OF apart]])
          with g1 have "grown e (files w)
                  (writeFileSync ?path (fileContent (frag_name fragment) g1) (files w1))"
            by (rule grown_trans)
          with r Inr gw content ast fragment ty spreads s1 show ?thesis
            by (simp add: processFile_def Let_def settled_def)
        qed
      qed
    qed
  qed
qed

lemma generateFactory_body_settled:
  assumes apart: "artifacts_apart e"
    and rec: "\<And>p v. D (files v) p \<Longrightarrow> p \<noteq> [] \<Longrightarrow> schema_store v = Some schema \<Longrightarrow>
                settled e schema (files v) (\<lambda>v'. v') (rec p v)"
    and mono: "\<And>fs fs' p. D fs p \<Longrightarrow> grown e fs fs' \<Longrightarrow> suffix ''.fragment.gql'' p \<Longrightarrow> D fs' p"
    and ds: "list_all (D (files w)) (descents e schema (files w) fragmentPath)"
    and s: "schema_store w = Some schema"
    and path: "fragmentPath \<noteq> []"
  shows "settled e schema (files w) (\<lambda>v'. v') (generateFactory_body e rec fragmentPath w)"
proof (cases "ids_store w")
  case None
  with s show ?thesis
    by (simp add: generateFactory_body_def settled_throw)
next
  case (Some ids)
  have "settled e schema (files w) snd (processFile e rec schema fragmentPath (ids, w))"
    by (rule processFile_settled [where D = D and rec = rec, OF apart _ _ ds s])
       (rule rec mono; assumption)+
  then obtain r where r: "processFile e rec schema fragmentPath (ids, w) = Some r" and
    after: "\<And>s'. r = Inr s' \<Longrightarrow>
              grown e (files w) (files (snd s')) \<and> schema_store (snd s') = Some schema"
    unfolding settled_def by blast
  show ?thesis
  proof (cases r)
    case (Inl err)
    with r s Some path show ?thesis
      by (simp add: generateFactory_body_def settled_throw)
  next
    case (Inr st)
    obtain ids1 w1 where st: "st = (ids1, w1)" by (cases st)
    from after [OF Inr] st have "grown e (files w) (files w1)" "schema_store w1 = Some schema"
      by simp_all
    with r Inr st s Some path show ?thesis
      by (simp add: generateFactory_body_def settled_def)
  qed
qed

lemma generateFactory_settled:
  assumes apart: "artifacts_apart e"
  shows "descends_within n e schema (files w) fragmentPath \<Longrightarrow> schema_store w = Some schema \<Longrightarrow>
         fragmentPath \<noteq> [] \<Longrightarrow>
         settled e schema (files w) (\<lambda>v'. v') (generateFactory (Suc n) e fragmentPath w)"
proof (induction n arbitrary: w fragmentPath)
  case 0
  from "0.prems"(1) have none: "list_all (\<lambda>p. False) (descents e schema (files w) fragmentPath)"
    by simp
  have "settled e schema (files w) (\<lambda>v'. v')
               (generateFactory_body e (generateFactory 0 e) fragmentPath w)"
    by (rule generateFactory_body_settled
              [where D = "\<lambda>fs p. False", OF apart _ _ none "0.prems"(2,3)]) simp_all
  then show ?case
    by simp
next
  case (Suc n)
  from Suc.prems(1)
  have deeper: "list_all (descends_within n e schema (files w))
                  (descents e schema (files w) fragmentPath)"
    by simp
  have "settled e schema (files w) (\<lambda>v'. v')
               (generateFactory_body e (generateFactory (Suc n) e) fragmentPath w)"
  proof (rule generateFactory_body_settled
              [where D = "descends_within n e schema", OF apart _ _ deeper Suc.prems(2,3)])
    show "settled e schema (files v) (\<lambda>v'. v') (generateFactory (Suc n) e p v)"
      if "descends_within n e schema (files v) p" "p \<noteq> []" "schema_store v = Some schema" for p v
      by (rule Suc.IH [OF that(1) that(3) that(2)])
    show "descends_within n e schema fs' p"
      if "descends_within n e schema fs p" "grown e fs fs'" "suffix ''.fragment.gql'' p"
      for fs fs' p
      using descends_within_grown [OF apart that(2) that(1)] suffixes_apart [OF that(3)]
      by simp
  qed
  then show ?case
    by simp
qed

text \<open>
  The libraries of the concrete environment keep fragment documents and
  artifacts apart.
\<close>

lemma split_path_nonempty: "split_path s \<noteq> []"
  by (induction s) (auto split: list.splits)

lemma split_path_plain: "CHR ''/'' \<notin> set l \<Longrightarrow> split_path l = [l]"
  by (induction l) auto

lemma split_path_append:
  "CHR ''/'' \<notin> set l \<Longrightarrow>
   split_path (x @ l) = butlast (split_path x) @ [last (split_path x) @ l]"
proof (induction x)
  case Nil
  then show ?case by (simp add: split_path_plain)
next
  case (Cons c x)
  obtain s ss where sp: "split_path x = s # ss"
    using split_path_nonempty [of x] by (cases "split_path x") auto
  from Cons have ih: "split_path (x @ l) = butlast (s # ss) @ [last (s # ss) @ l]"
    by (simp add: sp)
  show ?case
  proof (cases "c = CHR ''/''")
    case True
    with ih sp show ?thesis by simp
  next
    case False
    with ih sp show ?thesis by (cases ss) simp_all
  qed
qed

lemma last_split_path_append:
  "CHR ''/'' \<notin> set l \<Longrightarrow> last (split_path (x @ l)) = last (split_path x) @ l"
  by (simp add: split_path_append)

lemma split_path_single: "split_path p = [a] \<Longrightarrow> a = p"
proof (induction p arbitrary: a)
  case Nil
  then show ?case by simp
next
  case (Cons c p)
  obtain s ss where sp: "split_path p = s # ss"
    using split_path_nonempty [of p] by (cases "split_path p") auto
  with Cons.prems have "c \<noteq> CHR ''/''" "ss = []" "a = c # s"
    by (auto split: if_splits)
  with Cons.IH [of s] sp show ?case by simp
qed

lemma suffix_last_split_path: "suffix (last (split_path p)) p"
proof (induction p)
  case Nil
  then show ?case by simp
next
  case (Cons c p)
  obtain s ss where sp: "split_path p = s # ss"
    using split_path_nonempty [of p] by (cases "split_path p") auto
  show ?case
  proof (cases "c \<noteq> CHR ''/'' \<and> ss = []")
    case True
    with sp have "s = p" by (simp add: split_path_single)
    with True sp show ?thesis by simp
  next
    case False
    with sp have "last (split_path (c # p)) = last (split_path p)"
      by auto
    with Cons show ?thesis by (simp add: suffix_Cons)
  qed
qed

lemma wild_match_plain: "wild_match l s \<Longrightarrow> CHR ''*'' \<notin> set l \<Longrightarrow> s = l"
  by (induction l s rule: wild_match.induct) (auto split: if_splits)

lemma wild_match_suffix:
  "wild_match pat s \<Longrightarrow> pat = a @ l \<Longrightarrow> CHR ''*'' \<notin> set l \<Longrightarrow> suffix l s"
proof (induction pat s arbitrary: a rule: wild_match.induct)
  case 1
  then show ?case by simp
next
  case (2 c cs)
  then show ?case by simp
next
  case (3 p ps)
  show ?case
  proof (cases a)
    case Nil
    with 3 show ?thesis by auto
  next
    case (Cons b a')
    with 3 show ?thesis by auto
  qed
next
  case (4 p ps c cs)
  show ?case
  proof (cases a)
    case Nil
    with "4.prems" have "c # cs = l"
      by (auto dest: wild_match_plain)
    then show ?thesis by simp
  next
    case (Cons b a')
    with "4.prems" have ps: "ps = a' @ l" and b: "b = p"
      by simp_all
    show ?thesis
    proof (cases "p = CHR ''*''")
      case True
      with "4.prems"(1) have "wild_match ps (c # cs) \<or> wild_match (p # ps) cs"
        by simp
      then show ?thesis
      proof
        assume "wild_match ps (c # cs)"
        from "4.IH"(1) [OF True this ps "4.prems"(3)] show ?thesis .
      next
        assume "wild_match (p # ps) cs"
        from "4.IH"(2) [OF True this "4.prems"(2) "4.prems"(3)] have "suffix l cs" .
        then show ?thesis by (simp add: suffix_Cons)
      qed
    next
      case False
      with "4.prems"(1) have "wild_match ps cs"
        by simp
      from "4.IH"(3) [OF False this ps "4.prems"(3)] have "suffix l cs" .
      then show ?thesis by (simp add: suffix_Cons)
    qed
  qed
qed

lemma glob_match_last:
  "glob_match ps ss \<Longrightarrow> ps \<noteq> [] \<Longrightarrow> last ps \<noteq> ''**'' \<Longrightarrow>
   ss \<noteq> [] \<and> wild_match (last ps) (last ss)"
proof (induction ps ss rule: glob_match.induct)
  case 1
  then show ?case by simp
next
  case (2 s ss)
  then show ?case by simp
next
  case (3 p ps)
  then show ?case by (cases ps) (auto split: if_splits)
next
  case (4 p ps s ss)
  then show ?case
    by (cases ps; cases ss) (auto split: if_splits)
qed

lemma fragment_glob_match:
  assumes "glob_match (split_path (x @ ''.fragment.gql'')) (split_path p)"
  shows "suffix ''.fragment.gql'' p"
proof -
  have l: "last (split_path (x @ ''.fragment.gql'')) = last (split_path x) @ ''.fragment.gql''"
    by (rule last_split_path_append) simp
  have "last (last (split_path x) @ ''.fragment.gql'') \<noteq> last ''**''"
    by simp
  then have "last (split_path x) @ ''.fragment.gql'' \<noteq> ''**''"
    by metis
  with l have "last (split_path (x @ ''.fragment.gql'')) \<noteq> ''**''"
    by simp
  from glob_match_last [OF assms split_path_nonempty this] l
  have "wild_match (last (split_path x) @ ''.fragment.gql'') (last (split_path p))"
    by simp
  then have "suffix ''.fragment.gql'' (last (split_path p))"
    by (rule wild_match_suffix) simp_all
  with suffix_last_split_path [of p] show ?thesis
    by (blast intro: suffix_order.trans)
qed

lemma map_fst_writeFileSync:
  "map fst (writeFileSync p c fs) = (if p \<in> fst ` set fs then map fst fs else map fst fs @ [p])"
  by (induction fs) force+

lemma env0_artifacts_apart: "artifacts_apart env0"
proof -
  have join: "suffix ''.factory.ts'' (path_join env0 dir (base @ ''.factory.ts''))" for dir base
    by (simp add: env0_def posix_join_def suffix_def)
  have found: "suffix ''.fragment.gql'' p"
    if "p \<in> set (glob_sync env0 fs (''src/**/*/'' @ toKebabCase s @ ''.fragment.gql''))"
    for fs s p
  proof -
    from that have "glob_match (split_path ((''src/**/*/'' @ toKebabCase s) @ ''.fragment.gql''))
                      (split_path p)"
      by (simp add: env0_def fast_glob_def)
    then show ?thesis
      by (rule fragment_glob_match)
  qed
  have wr: "glob_sync env0 (writeFileSync p c fs)
                 (''src/**/*/'' @ toKebabCase s @ ''.fragment.gql'') =
               glob_sync env0 fs (''src/**/*/'' @ toKebabCase s @ ''.fragment.gql'')"
    if "suffix ''.factory.ts'' p" for fs s p c
  proof -
    have "\<not> glob_match (split_path ((''src/**/*/'' @ toKebabCase s) @ ''.fragment.gql''))
              (split_path p)"
      using fragment_glob_match [of "''src/**/*/'' @ toKebabCase s" p] suffixes_apart [of p] that
      by blast
    then show ?thesis
      by (simp add: env0_def fast_glob_def map_fst_writeFileSync)
  qed
  from join found wr show ?thesis
    unfolding artifacts_apart_def by blast
qed

text \<open>
  C1, as the program has it. For an object field whose nested fragment document
  is found at the path \<open>p\<close>, nested resolution looks at the file at \<open>p\<close>
  with \<^verbatim>\<open>.fragment.gql\<close> replaced by \<^verbatim>\<open>.factory.ts\<close>: when that file exists it
  emits the reference to the nested factory without a nested call, whatever is
  in work; when it does not exist it calls the generation of \<open>p\<close>, and the
  field waits for that call. With libraries that keep documents and artifacts
  apart, the generation of a document returns or throws whenever its descents
  go at most \<open>n\<close> deep, for some \<open>n\<close>; this holds in particular for a
  cycle of references that re-enters a document whose factory file exists.
\<close>

theorem nested_generation_terminates:
  \<open>(fragmentToSearch m fieldName (snd (unwrapType ftype)) = Inr toSearch \<longrightarrow>
    glob_sync e (files w) (''src/**/*/'' @ toKebabCase toSearch @ ''.fragment.gql'') =
      p # others \<longrightarrow>
    p \<noteq> [] \<longrightarrow>
    extractFragmentName (files w) p = Inr name \<longrightarrow>
    (let nestedFactoryPath = replace_first ''.fragment.gql'' ''.factory.ts'' p;
         g' = g\<lparr>g_nestedImports := g_nestedImports g @
                   [''import { createMock'' @ toPascalCase name @ '' } from "'' @
                    toRelativeImport e dir nestedFactoryPath @ ''";''],
                 g_fields := g_fields g @
                   [if isListTypeDeep ftype
                    then ''  '' @ fieldName @ '': [createMock'' @ toPascalCase name @ ''()],''
                    else ''  '' @ fieldName @ '': createMock'' @ toPascalCase name @ ''(),'']\<rparr>
     in (existsSync (files w) nestedFactoryPath \<longrightarrow>
         nestedField e rec dir m fieldName ftype (g, w) = Some (Inr (g', w))) \<and>
        (\<not> existsSync (files w) nestedFactoryPath \<longrightarrow>
         nestedField e rec dir m fieldName ftype (g, w) =
           (case rec p (w\<lparr>trace := trace w @ [LogNestedFactory toSearch]\<rparr>) of
              None \<Rightarrow> None
            | Some (Inl err) \<Rightarrow> Some (Inl err)
            | Some (Inr w') \<Rightarrow> Some (Inr (g', w')))))) \<and>
   (artifacts_apart e \<longrightarrow>
    fragmentPath \<noteq> [] \<longrightarrow>
    schema_store v = Some schema \<longrightarrow>
    descends_within n e schema (files v) fragmentPath \<longrightarrow>
    (\<exists>r. generateFactory (Suc n) e fragmentPath v = Some r))\<close>
proof -
  have pass: "\<exists>r. generateFactory (Suc n) e fragmentPath v = Some r"
    if "artifacts_apart e" "fragmentPath \<noteq> []" "schema_store v = Some schema"
       "descends_within n e schema (files v) fragmentPath"
    using generateFactory_settled [OF that(1) that(4) that(3) that(2)]
    unfolding settled_def by blast
  show ?thesis
  proof (intro conjI impI)
    show \<open>let nestedFactoryPath = replace_first ''.fragment.gql'' ''.factory.ts'' p;
         g' = g\<lparr>g_nestedImports := g_nestedImports g @
                   [''import { createMock'' @ toPascalCase name @ '' } from "'' @
                    toRelativeImport e dir nestedFactoryPath @ ''";''],
                 g_fields := g_fields g @
                   [if isListTypeDeep ftype
                    then ''  '' @ fieldName @ '': [createMock'' @ toPascalCase name @ ''()],''
                    else ''  '' @ fieldName @ '': createMock'' @ toPascalCase name @ ''(),'']\<rparr>
     in (existsSync (files w) nestedFactoryPath \<longrightarrow>
         nestedField e rec dir m fieldName ftype (g, w) = Some (Inr (g', w))) \<and>
        (\<not> existsSync (files w) nestedFactoryPath \<longrightarrow>
         nestedField e rec dir m fieldName ftype (g, w) =
           (case rec p (w\<lparr>trace := trace w @ [LogNestedFactory toSearch]\<rparr>) of
              None \<Rightarrow> None
            | Some (Inl err) \<Rightarrow> Some (Inl err)
            | Some (Inr w') \<Rightarrow> Some (Inr (g', w'))))\<close>
      if "fragmentToSearch m fieldName (snd (unwrapType ftype)) = Inr toSearch"
        "glob_sync e (files w) (''src/**/*/'' @ toKebabCase toSearch @ ''.fragment.gql'') =
           p # others"
        "p \<noteq> []" "extractFragmentName (files w) p = Inr name"
      using that by (auto simp: nestedField_def Let_def split: option.splits sum.splits)
  next
    show "\<exists>r. generateFactory (Suc n) e fragmentPath v = Some r"
      if "artifacts_apart e" "fragmentPath \<noteq> []" "schema_store v = Some schema"
         "descends_within n e schema (files v) fragmentPath"
      using that by (rule pass)
  qed
qed

theorem nested_generation_terminates_witness:
  \<open>fragmentToSearch (getFieldFragmentMap user_text) ''friend''
     (snd (unwrapType (Named ObjectType ''User''))) = Inr ''User'' \<and>
   glob_sync env0 (files user_ready_world)
     (''src/**/*/'' @ toKebabCase ''User'' @ ''.fragment.gql'') = [user_path] \<and>
   extractFragmentName (files user_ready_world) user_path = Inr ''User'' \<and>
   existsSync (files user_ready_world)
     (replace_first ''.fragment.gql'' ''.factory.ts'' user_path) \<and>
   nestedField env0 (\<lambda>p w. None) ''src/gql/user'' (getFieldFragmentMap user_text) ''friend''
     (Named ObjectType ''User'') (gen0, user_ready_world) =
     Some (Inr
       (gen0\<lparr>g_nestedImports := [''import { createMockUser } from "./user.factory";''],
             g_fields := [''  friend: createMockUser(),'']\<rparr>,
        user_ready_world)) \<and>
   glob_sync env0 (files user_world)
     (''src/**/*/'' @ toKebabCase ''User'' @ ''.fragment.gql'') = [user_path] \<and>
   extractFragmentName (files user_world) user_path = Inr ''User'' \<and>
   \<not> existsSync (files user_world)
       (replace_first ''.fragment.gql'' ''.factory.ts'' user_path) \<and>
   nestedField env0 (\<lambda>p w. None) ''src/gql/user'' (getFieldFragmentMap user_text) ''friend''
     (Named ObjectType ''User'') (gen0, user_world) = None \<and>
   artifacts_apart env0 \<and>
   schema_store member_world = Some blog_schema \<and>
   descents env0 blog_schema (files member_world) member_path = [buddy_path] \<and>
   descents env0 blog_schema (files member_world) buddy_path = [] \<and>
   descends_within (Suc 0) env0 blog_schema (files member_world) member_path \<and>
   (\<exists>r. generateFactory (Suc (Suc 0)) env0 member_path member_world = Some r)\<close>
proof -
  have a: "fragmentToSearch (getFieldFragmentMap user_text) ''friend''
             (snd (unwrapType (Named ObjectType ''User''))) = Inr ''User''"
    by code_simp
  have b: "glob_sync env0 (files user_ready_world)
             (''src/**/*/'' @ toKebabCase ''User'' @ ''.fragment.gql'') = [user_path]"
    by code_simp
  have c: "user_path \<noteq> []"
    by code_simp
  have d: "extractFragmentName (files user_ready_world) user_path = Inr ''User''"
    by code_simp
  have x: "existsSync (files user_ready_world)
             (replace_first ''.fragment.gql'' ''.factory.ts'' user_path)"
    by code_simp
  have b': "glob_sync env0 (files user_world)
              (''src/**/*/'' @ toKebabCase ''User'' @ ''.fragment.gql'') = [user_path]"
    by code_simp
  have d': "extractFragmentName (files user_world) user_path = Inr ''User''"
    by code_simp
  have x': "\<not> existsSync (files user_world)
                (replace_first ''.fragment.gql'' ''.factory.ts'' user_path)"
    by code_simp
  have line: \<open>toRelativeImport env0 ''src/gql/user''
                 (replace_first ''.fragment.gql'' ''.factory.ts'' user_path) = ''./user.factory''\<close>
    \<open>toPascalCase ''User'' = ''User''\<close>
    by code_simp+
  have apart: "artifacts_apart env0"
    by (rule env0_artifacts_apart)
  have p: "member_path \<noteq> []"
    by code_simp
  have s: "schema_store member_world = Some blog_schema"
    by (simp add: member_world_def project_def)
  have ds: "descents env0 blog_schema (files member_world) member_path = [buddy_path]"
    "descents env0 blog_schema (files member_world) buddy_path = []"
    by code_simp+
  then have within: "descends_within (Suc 0) env0 blog_schema (files member_world) member_path"
    by simp
  have shallow:
    \<open>nestedField env0 (\<lambda>p w. None) ''src/gql/user'' (getFieldFragmentMap user_text) ''friend''
       (Named ObjectType ''User'') (gen0, user_ready_world) =
     Some (Inr
       (gen0\<lparr>g_nestedImports := [''import { createMockUser } from "./user.factory";''],
             g_fields := [''  friend: createMockUser(),'']\<rparr>,
        user_ready_world))\<close>
    using nested_generation_terminates
            [where m = "getFieldFragmentMap user_text" and fieldName = "''friend''" and
               ftype = "Named ObjectType ''User''" and toSearch = "''User''" and e = env0 and
               w = user_ready_world and p = user_path and others = "[]" and name = "''User''" and
               rec = "\<lambda>p w. None" and dir = "''src/gql/user''" and g = gen0]
          a b c d x line
    by (simp add: gen0_def Let_def)
  have descends:
    \<open>nestedField env0 (\<lambda>p w. None) ''src/gql/user'' (getFieldFragmentMap user_text) ''friend''
       (Named ObjectType ''User'') (gen0, user_world) = None\<close>
    using nested_generation_terminates
            [where m = "getFieldFragmentMap user_text" and fieldName = "''friend''" and
               ftype = "Named ObjectType ''User''" and toSearch = "''User''" and e = env0 and
               w = user_world and p = user_path and others = "[]" and name = "''User''" and
               rec = "\<lambda>p w. None" and dir = "''src/gql/user''" and g = gen0]
          a b' c d' x'
    by (simp add: Let_def)
  have returns: "\<exists>r. generateFactory (Suc (Suc 0)) env0 member_path member_world = Some r"
    using nested_generation_terminates
            [where e = env0 and fragmentPath = member_path and v = member_world and
               schema = blog_schema and n = "Suc 0"]
          apart p s within
    by blast
  from a b d x shallow b' d' x' descends apart s ds within returns show ?thesis
    by blast
qed

lemma user_facts:
  "gql_parse env0 user_text = Some user_ast"
  "getTopLevelFragmentSpreads env0 user_text = Inr []"
  "getFieldFragmentMap user_text = []"
  "map_of blog_schema ''User'' = Some user_type"
  "getFields user_type = Inr (td_fields user_type)"
  "map_of (td_fields user_type) ''id'' = Some (NonNull (Named ScalarType ''ID''))"
  "map_of (td_fields user_type) ''friend'' = Some (Named ObjectType ''User'')"
  "isScalar (ObjectType, ''User'') = False"
  "isEnum (ObjectType, ''User'') = False"
  "fragmentToSearch [] ''friend'' ''User'' = Inr ''User''"
  "toKebabCase ''User'' = ''user''"
  "glob_sync env0 [(user_path, user_text)] ''src/**/*/user.fragment.gql'' = [user_path]"
  "user_path \<noteq> []"
  "extractFragmentName [(user_path, user_text)] user_path = Inr ''User''"
  "existsSync [(user_path, user_text)]
     (replace_first ''.fragment.gql'' ''.factory.ts'' user_path) = False"
  by code_simp+

lemma user_pass_reenters:
  assumes "files w = [(user_path, user_text)]"
    and "schema_store w = Some blog_schema"
    and "ids_store w = Some ids"
    and "rec user_path (w\<lparr>trace := trace w @ [LogNestedFactory ''User'']\<rparr>) = None"
  shows "generateFactory_body env0 rec user_path w = None"
  using assms
  by (simp add: generateFactory_body_def processFile_def documentFields_def
        processSelection_def nestedField_def user_facts user_ast_def Let_def)

lemma user_pass_diverges:
  assumes "files w = [(user_path, user_text)]"
    and "schema_store w = Some blog_schema"
    and "ids_store w = Some ids"
  shows "generateFactory n env0 user_path w = None"
  using assms
proof (induction n arbitrary: w)
  case 0
  then show ?case by simp
next
  case (Suc n)
  have "generateFactory n env0 user_path (w\<lparr>trace := trace w @ [LogNestedFactory ''User'']\<rparr>) = None"
    by (rule Suc.IH) (simp_all add: Suc.prems)
  with Suc.prems show ?case
    by (simp add: user_pass_reenters)
qed

text \<open>
  The claim C1 as stated fails: the program keeps no record of the types in
  work. In the schema the type \<^verbatim>\<open>User\<close> has the field \<^verbatim>\<open>friend\<close> of type \<^verbatim>\<open>User\<close>;
  with no factory of \<^verbatim>\<open>User\<close> on disk yet, the pass over the fragment \<^verbatim>\<open>User\<close>
  calls itself on the same document at every depth and never returns.
\<close>

theorem self_reference_counterexample:
  "map_of (td_fields (the (map_of blog_schema ''User''))) ''friend'' = Some (Named ObjectType ''User'') \<and>
   \<not> (\<exists>n r. generateFactory n env0 user_path user_world = Some r)"
proof -
  have "generateFactory n env0 user_path user_world = None" for n
    by (rule user_pass_diverges [where ids = "[]"]) (simp_all add: user_world_def project_def)
  moreover have "map_of (td_fields (the (map_of blog_schema ''User''))) ''friend'' =
                   Some (Named ObjectType ''User'')"
    by code_simp
  ultimately show ?thesis by simp
qed

subsection \<open>Determinism\<close>

lemma forget_iff:
  "forget w = forget w' \<longleftrightarrow>
     files w = files w' \<and> schema_store w = schema_store w' \<and> ids_store w = ids_store w' \<and>
     trace w = trace w'"
  by (cases w, cases w') (simp add: forget_def)

lemma forget_update [simp]:
  "forget (w\<lparr>rng := r\<rparr>) = forget w"
  "forget (w\<lparr>trace := t\<rparr>) = (forget w)\<lparr>trace := t\<rparr>"
  "forget (w\<lparr>files := fs\<rparr>) = (forget w)\<lparr>files := fs\<rparr>"
  "forget (w\<lparr>ids_store := i\<rparr>) = (forget w)\<lparr>ids_store := i\<rparr>"
  by (simp_all add: forget_def)

lemma forget_sel [simp]:
  "files (forget w) = files w" "trace (forget w) = trace w"
  "ids_store (forget w) = ids_store w" "schema_store (forget w) = schema_store w"
  by (simp_all add: forget_def)

lemma related_cases:
  assumes "map_option (map_sum id nrm) a = map_option (map_sum id nrm) b"
  obtains (none) "a = None" "b = None"
    | (thrown) err where "a = Some (Inl err)" "b = Some (Inl err)"
    | (returned) t t' where "a = Some (Inr t)" "b = Some (Inr t')" "nrm t = nrm t'"
proof (cases a)
  case None
  with assms have "b = None" by simp
  with None show ?thesis by (rule none)
next
  case (Some x)
  with assms obtain y where y: "b = Some y" "map_sum id nrm x = map_sum id nrm y"
    by (cases b) auto
  show ?thesis
  proof (cases x)
    case (Inl err)
    with y have "y = Inl err" by (cases y) auto
    with Some Inl y show ?thesis by (auto intro: thrown)
  next
    case (Inr t)
    with y obtain t' where "y = Inr t'" "nrm t = nrm t'" by (cases y) auto
    with Some Inr y show ?thesis by (auto intro: returned)
  qed
qed

lemma forEach_related:
  assumes step: "\<And>x s s'. nrm s = nrm s' \<Longrightarrow>
                   map_option (map_sum id nrm) (body x s) = map_option (map_sum id nrm) (body x s')"
    and start: "nrm s = nrm s'"
  shows "map_option (map_sum id nrm) (forEach body xs s) =
         map_option (map_sum id nrm) (forEach body xs s')"
  using start
proof (induction xs arbitrary: s s')
  case Nil
  then show ?case by simp
next
  case (Cons x xs)
  from step [OF Cons.prems, of x] show ?case
  proof (cases rule: related_cases)
    case none
    then show ?thesis by simp
  next
    case (thrown err)
    then show ?thesis by simp
  next
    case (returned t t')
    with Cons.IH [of t t'] show ?thesis by simp
  qed
qed

lemma mock_deterministic:
  assumes "synthesizer_deterministic e"
  shows "fst (getFakerMockForScalar e scalar name r) = fst (getFakerMockForScalar e scalar name r')"
proof -
  from assms have
    f: "fst (faker e call r) = fst (faker e call r')" and
    b: "fst (faker_boolean e r) = fst (faker_boolean e r')" for call
    by (simp_all add: synthesizer_deterministic_def)
  have j: "fst (faker_json e call r) = fst (faker_json e call r')" for call
    using f [of call]
    by (cases "faker e call r", cases "faker e call r'") (simp add: faker_json_def)
  obtain b1 r1 b2 r2 where
    fb: "faker_boolean e r = (b1, r1)" "faker_boolean e r' = (b2, r2)"
    by (cases "faker_boolean e r", cases "faker_boolean e r'")
  with b have "b1 = b2"
    by simp
  with f j fb show ?thesis
    by (simp add: getFakerMockForScalar_def Let_def)
qed

lemma scalarField_related:
  assumes "synthesizer_deterministic e" and "forget w = forget w'"
  shows "apsnd forget (scalarField e n t (g, w)) = apsnd forget (scalarField e n t (g, w'))"
  using mock_deterministic [OF assms(1), of "snd (unwrapType t)" n "rng w" "rng w'"] assms(2)
  by (auto simp: scalarField_def split: prod.splits)

lemma enumField_related:
  assumes "forget w = forget w'"
  shows "apsnd forget (enumField e dir n t (g, w)) = apsnd forget (enumField e dir n t (g, w'))"
  using assms by (auto simp: enumField_def forget_iff split: prod.splits)

lemma nestedField_related:
  assumes rec: "\<And>p w w'. forget w = forget w' \<Longrightarrow>
                  map_option (map_sum id forget) (rec p w) =
                  map_option (map_sum id forget) (rec p w')"
    and same: "forget w = forget w'"
  shows "map_option (map_sum id (apsnd forget)) (nestedField e rec dir m n t (g, w)) =
         map_option (map_sum id (apsnd forget)) (nestedField e rec dir m n t (g, w'))"
proof -
  from same have fs: "files w' = files w" and tr: "trace w' = trace w"
    by (simp_all add: forget_iff)
  have call: "map_option (map_sum id forget) (rec p (w\<lparr>trace := trace w @ evs\<rparr>)) =
              map_option (map_sum id forget) (rec p (w'\<lparr>trace := trace w @ evs\<rparr>))" for p evs
    by (rule rec) (simp add: same)
  show ?thesis
  proof (cases "fragmentToSearch m n (snd (unwrapType t))")
    case (Inl err)
    then show ?thesis by (simp add: nestedField_def)
  next
    case (Inr toSearch)
    show ?thesis
    proof (cases "glob_sync e (files w) (''src/**/*/'' @ toKebabCase toSearch @ ''.fragment.gql'')")
      case Nil
      with Inr same show ?thesis by (simp add: nestedField_def fs)
    next
      case (Cons p others)
      show ?thesis
      proof (cases "p = []")
        case True
        with Inr Cons same show ?thesis by (simp add: nestedField_def fs)
      next
        case False
        show ?thesis
        proof (cases "extractFragmentName (files w) p")
          case (Inl err)
          with Inr Cons False show ?thesis by (simp add: nestedField_def fs)
        next
          case name: (Inr nestedFragmentName)
          show ?thesis
          proof (cases "existsSync (files w) (replace_first ''.fragment.gql'' ''.factory.ts'' p)")
            case True
            with Inr Cons False name same show ?thesis
              by (simp add: nestedField_def fs Let_def)
          next
            case absent: False
            from call [of p "[LogNestedFactory toSearch]"] show ?thesis
            proof (cases rule: related_cases)
              case none
              with Inr Cons False name absent show ?thesis
                by (simp add: nestedField_def fs tr Let_def)
            next
              case (thrown err)
              with Inr Cons False name absent show ?thesis
                by (simp add: nestedField_def fs tr Let_def)
            next
              case (returned v v')
              with Inr Cons False name absent show ?thesis
                by (simp add: nestedField_def fs tr Let_def)
            qed
          qed
        qed
      qed
    qed
  qed
qed

lemma processSelection_related:
  assumes det: "synthesizer_deterministic e"
    and rec: "\<And>p w w'. forget w = forget w' \<Longrightarrow>
                map_option (map_sum id forget) (rec p w) =
                map_option (map_sum id forget) (rec p w')"
    and same: "apsnd forget s = apsnd forget s'"
  shows "map_option (map_sum id (apsnd forget))
           (processSelection e rec ty tyName dir idsPath m sel s) =
         map_option (map_sum id (apsnd forget))
           (processSelection e rec ty tyName dir idsPath m sel s')"
proof -
  obtain g w w' where s: "s = (g, w)" "s' = (g, w')" and fw: "forget w = forget w'"
    using same by (cases s, cases s') auto
  show ?thesis
  proof (cases sel)
    case (FieldNode n sub)
    show ?thesis
    proof (cases "getFields ty")
      case (Inl err)
      with FieldNode show ?thesis by (simp add: processSelection_def)
    next
      case (Inr fs)
      show ?thesis
      proof (cases "map_of fs n")
        case None
        with FieldNode Inr show ?thesis by (simp add: processSelection_def)
      next
        case (Some t)
        have nested: "map_option (map_sum id (apsnd forget)) (nestedField e rec dir m n t (g, w)) =
                      map_option (map_sum id (apsnd forget)) (nestedField e rec dir m n t (g, w'))"
          by (rule nestedField_related [where rec = rec, OF _ fw]) (erule rec)
        from FieldNode Inr Some s fw nested
          scalarField_related [OF det fw, of n t g] enumField_related [OF fw, of e dir n t g]
        show ?thesis
          by (simp add: processSelection_def)
      qed
    qed
  next
    case (FragmentSpreadNode n)
    with s fw show ?thesis by (simp add: processSelection_def)
  next
    case (InlineFragmentNode sub)
    with s fw show ?thesis by (simp add: processSelection_def)
  qed
qed

lemma documentFields_related:
  assumes det: "synthesizer_deterministic e"
    and rec: "\<And>p w w'. forget w = forget w' \<Longrightarrow>
                map_option (map_sum id forget) (rec p w) =
                map_option (map_sum id forget) (rec p w')"
    and same: "forget w = forget w'"
  shows "map_option (map_sum id (apsnd forget))
           (documentFields e rec ty tyName dir idsPath m spreads sels (g, w)) =
         map_option (map_sum id (apsnd forget))
           (documentFields e rec ty tyName dir idsPath m spreads sels (g, w'))"
proof -
  let ?body = "processSelection e rec ty tyName dir idsPath m"
  have step: "map_option (map_sum id (apsnd forget)) (?body x s) =
              map_option (map_sum id (apsnd forget)) (?body x s')"
    if "apsnd forget s = apsnd forget s'" for x s s'
    by (rule processSelection_related [where rec = rec, OF det _ that]) (erule rec)
  have "map_option (map_sum id (apsnd forget)) (forEach ?body sels (g, w)) =
        map_option (map_sum id (apsnd forget)) (forEach ?body sels (g, w'))"
    by (rule forEach_related [where body = ?body]) (erule step, simp add: same)
  then show ?thesis
  proof (cases rule: related_cases)
    case none
    then show ?thesis by (simp add: documentFields_def)
  next
    case (thrown err)
    then show ?thesis by (simp add: documentFields_def)
  next
    case (returned t t')
    obtain h v v' where "t = (h, v)" "t' = (h, v')" "forget v = forget v'"
      using returned(3) by (cases t, cases t') auto
    with returned show ?thesis
      by (simp add: documentFields_def Let_def forget_iff)
  qed
qed

lemma processFile_related:
  assumes det: "synthesizer_deterministic e"
    and rec: "\<And>p w w'. forget w = forget w' \<Longrightarrow>
                map_option (map_sum id forget) (rec p w) =
                map_option (map_sum id forget) (rec p w')"
    and same: "apsnd forget s = apsnd forget s'"
  shows "map_option (map_sum id (apsnd forget)) (processFile e rec schema filePath s) =
         map_option (map_sum id (apsnd forget)) (processFile e rec schema filePath s')"
proof -
  obtain ids w w' where s: "s = (ids, w)" "s' = (ids, w')" and fw: "forget w = forget w'"
    using same by (cases s, cases s') auto
  from fw have fs: "files w' = files w"
    by (simp add: forget_iff)
  show ?thesis
  proof (cases "map_of (files w) filePath")
    case None
    with s fs show ?thesis by (simp add: processFile_def)
  next
    case content: (Some content)
    show ?thesis
    proof (cases "gql_parse e content")
      case None
      with s fs content show ?thesis by (simp add: processFile_def)
    next
      case ast: (Some ast)
      show ?thesis
      proof (cases "find_fragment ast")
        case None
        with s fs fw content ast show ?thesis by (simp add: processFile_def)
      next
        case fragment: (Some fragment)
        show ?thesis
        proof (cases "map_of schema (typeCondition fragment)")
          case None
          with s fs fw content ast fragment show ?thesis by (simp add: processFile_def)
        next
          case ty: (Some ty)
          show ?thesis
          proof (cases "getTopLevelFragmentSpreads e content")
            case (Inl err)
            with s fs content ast fragment ty show ?thesis
              by (simp add: processFile_def Let_def)
          next
            case (Inr spreads)
            let ?g0 =
              \<open>\<lparr>g_ids = ids,
                g_imports = [''import { '' @ frag_name fragment @ ''Fragment } from "./'' @
                             toKebabCase (frag_name fragment) @ ''.fragment.generated";''],
                g_nestedImports = [], g_fields = []\<rparr>\<close>
            let ?run = "\<lambda>v. documentFields e rec ty (typeCondition fragment)
                (path_dirname e filePath)
                (toRelativeImport e (path_dirname e filePath) (IDS_PATH e))
                (getFieldFragmentMap content) spreads (selections fragment) (?g0, v)"
            have "map_option (map_sum id (apsnd forget)) (?run w) =
                  map_option (map_sum id (apsnd forget)) (?run w')"
              by (rule documentFields_related [where rec = rec, OF det _ fw]) (erule rec)
            then
            show ?thesis
            proof (cases rule: related_cases)
              case none
              with s fs content ast fragment ty Inr show ?thesis
                by (simp add: processFile_def Let_def)
            next
              case (thrown err)
              with s fs content ast fragment ty Inr show ?thesis
                by (simp add: processFile_def Let_def)
            next
              case (returned t t')
              obtain h v v' where t: "t = (h, v)" "t' = (h, v')" "forget v = forget v'"
                using returned(3) by (cases t, cases t') auto
              then have "trace v = trace v'" "files v = files v'"
                by (simp_all add: forget_iff)
              with t returned s fs content ast fragment ty Inr show ?thesis
                by (simp add: processFile_def Let_def)
            qed
          qed
        qed
      qed
    qed
  qed
qed

lemma generateFactory_body_related:
  assumes det: "synthesizer_deterministic e"
    and rec: "\<And>p w w'. forget w = forget w' \<Longrightarrow>
                map_option (map_sum id forget) (rec p w) =
                map_option (map_sum id forget) (rec p w')"
    and same: "forget w = forget w'"
  shows "map_option (map_sum id forget) (generateFactory_body e rec fragmentPath w) =
         map_option (map_sum id forget) (generateFactory_body e rec fragmentPath w')"
proof -
  from same have eq: "files w' = files w" "schema_store w' = schema_store w"
    "ids_store w' = ids_store w"
    by (simp_all add: forget_iff)
  show ?thesis
  proof (cases "schema_store w")
    case None
    with eq show ?thesis by (simp add: generateFactory_body_def)
  next
    case schema: (Some schema)
    show ?thesis
    proof (cases "ids_store w")
      case None
      with eq schema show ?thesis by (simp add: generateFactory_body_def)
    next
      case ids: (Some ids)
      let ?body = "processFile e rec schema"
      have step: "map_option (map_sum id (apsnd forget)) (?body x s) =
                  map_option (map_sum id (apsnd forget)) (?body x s')"
        if "apsnd forget s = apsnd forget s'" for x s s'
        by (rule processFile_related [where rec = rec, OF det _ that]) (erule rec)
      have "map_option (map_sum id (apsnd forget)) (forEach ?body xs (ids, w)) =
            map_option (map_sum id (apsnd forget)) (forEach ?body xs (ids, w'))" for xs
        by (rule forEach_related [where body = ?body]) (erule step, simp add: same)
      from this [of "if fragmentPath \<noteq> [] then [fragmentPath]
                     else glob_sync e (files w) ''src/**/*/*.fragment.gql''"]
      show ?thesis
      proof (cases rule: related_cases)
        case none
        with eq schema ids show ?thesis
          by (simp add: generateFactory_body_def split del: if_split cong: if_cong)
      next
        case (thrown err)
        with eq schema ids show ?thesis
          by (simp add: generateFactory_body_def split del: if_split cong: if_cong)
      next
        case (returned t t')
        obtain h v v' where t: "t = (h, v)" "t' = (h, v')" "forget v = forget v'"
          using returned(3) by (cases t, cases t') auto
        then have "trace v = trace v'"
          by (simp add: forget_iff)
        with t returned eq schema ids show ?thesis
          by (simp add: generateFactory_body_def split del: if_split cong: if_cong)
      qed
    qed
  qed
qed

lemma generateFactory_related:
  assumes "synthesizer_deterministic e" and "forget w = forget w'"
  shows "map_option (map_sum id forget) (generateFactory n e p w) =
         map_option (map_sum id forget) (generateFactory n e p w')"
  using assms(2)
proof (induction n arbitrary: p w w')
  case 0
  then show ?case by simp
next
  case (Suc n)
  have rec: "map_option (map_sum id forget) (generateFactory n e p w) =
             map_option (map_sum id forget) (generateFactory n e p w')"
    if "forget w = forget w'" for p w w'
    using that by (rule Suc.IH)
  show ?case
    unfolding generateFactory.simps
    by (rule generateFactory_body_related [where rec = "generateFactory n e", OF assms(1) _ Suc.prems])
       (erule rec)
qed

text \<open>
  C2, as the program has it. The artifacts and the registry are a function of the
  fragment documents, the schema, the registry and the other files on disk
  together with the literals that faker draws. If the value synthesizer is
  deterministic, two runs on the same documents, schema, registry and files end
  with the same files, the same registry and the same trace, whatever the states
  of the random generator; either both run out of fuel, or both throw the same
  error, or both return.
\<close>

theorem generation_deterministic:
  assumes "synthesizer_deterministic e"
  shows "map_option (map_sum id (\<lambda>v. (files v, ids_store v, trace v)))
           (generateFactory n e p (w\<lparr>rng := r\<rparr>)) =
         map_option (map_sum id (\<lambda>v. (files v, ids_store v, trace v)))
           (generateFactory n e p (w\<lparr>rng := r'\<rparr>))"
proof -
  have "forget (w\<lparr>rng := r\<rparr>) = forget (w\<lparr>rng := r'\<rparr>)"
    by simp
  from generateFactory_related [OF assms this, of n p] show ?thesis
  proof (cases rule: related_cases)
    case none
    then show ?thesis by simp
  next
    case (thrown err)
    then show ?thesis by simp
  next
    case (returned t t')
    then show ?thesis by (simp add: forget_iff)
  qed
qed

theorem generation_deterministic_witness:
  "synthesizer_deterministic fixed_env \<and>
   map_option (map_sum id (\<lambda>v. (files v, ids_store v, trace v)))
     (generateFactory 1 fixed_env profile_path (profile_world\<lparr>rng := 0\<rparr>)) =
   map_option (map_sum id (\<lambda>v. (files v, ids_store v, trace v)))
     (generateFactory 1 fixed_env profile_path (profile_world\<lparr>rng := 7\<rparr>)) \<and>
   (case generateFactory 1 fixed_env profile_path (profile_world\<lparr>rng := 0\<rparr>) of
      Some (Inr v) \<Rightarrow> True | _ \<Rightarrow> False)"
proof -
  have det: "synthesizer_deterministic fixed_env"
    by (simp add: synthesizer_deterministic_def fixed_env_def)
  have "case generateFactory 1 fixed_env profile_path (profile_world\<lparr>rng := 0\<rparr>) of
          Some (Inr v) \<Rightarrow> True | _ \<Rightarrow> False"
    by code_simp
  with det generation_deterministic
      [OF det, where n = 1 and p = profile_path and w = profile_world and r = 0 and r' = 7]
  show ?thesis by simp
qed

text \<open>
  The claim C2 as stated fails: the same fragment, schema and registry give two
  artifacts that differ in the literal of the field \<^verbatim>\<open>age\<close> when the random
  generator of faker is in two different states.
\<close>

lemma profile_artifact:
  \<open>map_option (map_sum id (\<lambda>v. map_of (files v) ''src/gql/profile/profile.factory.ts''))
     (generateFactory 1 env0 profile_path (profile_world\<lparr>rng := 0\<rparr>)) =
   Some (Inr (Some (join [CHR 0x0A]
     [''import { ProfileFragment } from "./profile.fragment.generated";'',
      ''import { ids } from "../ids";'',
      [],
      ''const defaultProfile: ProfileFragment = {'',
      ''  id: ids.user[0],'',
      ''  age: 0,'',
      ''  __typename: "User",'',
      ''};'',
      [],
      ''export const createMockProfile = (overwrites: Partial<ProfileFragment> = {}): ProfileFragment => ({'',
      ''  ...defaultProfile,'',
      ''  ...overwrites,'',
      ''});''])))\<close>
  \<open>map_option (map_sum id (\<lambda>v. map_of (files v) ''src/gql/profile/profile.factory.ts''))
     (generateFactory 1 env0 profile_path (profile_world\<lparr>rng := 7\<rparr>)) =
   Some (Inr (Some (join [CHR 0x0A]
     [''import { ProfileFragment } from "./profile.fragment.generated";'',
      ''import { ids } from "../ids";'',
      [],
      ''const defaultProfile: ProfileFragment = {'',
      ''  id: ids.user[0],'',
      ''  age: 7,'',
      ''  __typename: "User",'',
      ''};'',
      [],
      ''export const createMockProfile = (overwrites: Partial<ProfileFragment> = {}): ProfileFragment => ({'',
      ''  ...defaultProfile,'',
      ''  ...overwrites,'',
      ''});''])))\<close>
  by code_simp+

theorem generation_deterministic_counterexample:
  "map_option (map_sum id (\<lambda>v. map_of (files v) ''src/gql/profile/profile.factory.ts''))
     (generateFactory 1 env0 profile_path (profile_world\<lparr>rng := 0\<rparr>)) \<noteq>
   map_option (map_sum id (\<lambda>v. map_of (files v) ''src/gql/profile/profile.factory.ts''))
     (generateFactory 1 env0 profile_path (profile_world\<lparr>rng := 7\<rparr>))"
  unfolding profile_artifact by simp

end
